theory Spec2Isabelle
  imports Complex_Main "HOL-Library.Multiset" "HOL-Library.Char_ord" "HOL-Library.List_Lexorder"
begin

section \<open>Values shared by the whole module\<close>

text \<open>
  Python exceptions are values. The classes the module and its libraries raise are
  constructors of their own; \<open>Raised name\<close> stands for any other exception (one raised by a
  caller-supplied estimator or scoring function, an interrupt, ...).
\<close>

datatype error = ValueError | TypeError | IndexError | AttributeError | Raised string

text \<open>
  A fold partition is the list of \<open>(train_index, test_index)\<close> pairs that
  \<^verbatim>\<open>StratifiedKFold(...).split(X, y)\<close> yields; the indices are positions of samples.
\<close>

type_synonym folds = "(nat list \<times> nat list) list"

text \<open>
  The fold splitter is scikit-learn's and is not part of the repository: it is a parameter
  of the model. Its arguments are \<open>n_splits\<close>, \<open>random_state\<close> (\<open>None\<close> or an integer seed),
  \<open>shuffle\<close>, the feature matrix (a list of rows) and the label vector. It may raise (a fold
  count larger than a class, for instance). The last argument is the state of the library
  outside the call (the global random generator), which a call may read and advance: two
  runs of the program differ in it, and counting the calls of the splitter is reading how
  it was advanced.
\<close>

type_synonym ('x, 'l, 'w) splitter =
  "int \<Rightarrow> int option \<Rightarrow> bool \<Rightarrow> 'x list \<Rightarrow> 'l list \<Rightarrow> 'w \<Rightarrow> (error + folds) \<times> 'w"

text \<open>
  An estimator object has a state \<open>'clf\<close>; \<open>fit\<close> mutates the object, so it returns the new
  state, together with the exception when it raises (the object may have been modified
  before the exception). \<open>clf_fit_n_jobs\<close> is the call \<^verbatim>\<open>clf.fit(X, y, n_jobs=n)\<close>, which an
  estimator without that keyword answers with \<open>TypeError\<close>; \<open>clf_fit\<close> is \<^verbatim>\<open>clf.fit(X, y)\<close>.
  What \<open>predict\<close> returns has a type \<open>'p\<close> of its own: an estimator may predict values that
  are not of the type \<open>'l\<close> of the labels (scores, probabilities, wider integers).
  A record of this type is the behaviour of the estimator's class during one run of the
  program: the module never seeds an estimator, so one that draws random numbers behaves
  differently in another run, which is another record.
\<close>

record ('clf, 'x, 'l, 'p) estimator =
  clf_fit_n_jobs :: "'clf \<Rightarrow> 'x list \<Rightarrow> 'l list \<Rightarrow> int \<Rightarrow> 'clf \<times> error option"
  clf_fit :: "'clf \<Rightarrow> 'x list \<Rightarrow> 'l list \<Rightarrow> 'clf \<times> error option"
  clf_predict :: "'clf \<Rightarrow> 'x list \<Rightarrow> error + 'p list"

text \<open>
  \<^verbatim>\<open>a[index]\<close> for an array \<open>a\<close> and an array of positions: the selected entries, in the
  order of the positions; a position outside the array raises \<open>IndexError\<close>.
\<close>

definition take_rows :: "'a list \<Rightarrow> nat list \<Rightarrow> error + 'a list" where
  "take_rows a idx =
     (if \<forall>i \<in> set idx. i < length a then Inr (map (\<lambda>i. a ! i) idx) else Inl IndexError)"

text \<open>
  The conversion of values to the element type of an array, value by value, as numpy does
  it when it stores them: \<open>cast\<close> is the conversion of one value to the dtype of the array
  (a float is truncated when the array holds integers, an integer wraps when it is too wide;
  a value that cannot be converted raises). The first value that raises ends the conversion.
\<close>

fun cast_all :: "('p \<Rightarrow> error + 'l) \<Rightarrow> 'p list \<Rightarrow> error + 'l list" where
  "cast_all cast [] = Inr []"
| "cast_all cast (v # vs) =
     (case cast v of
        Inl e \<Rightarrow> Inl e
      | Inr u \<Rightarrow> (case cast_all cast vs of Inl e \<Rightarrow> Inl e | Inr us \<Rightarrow> Inr (u # us)))"

text \<open>
  \<^verbatim>\<open>preds[index] = values\<close>. The array \<open>preds\<close> comes from \<^verbatim>\<open>np.empty_like(y)\<close>: it has the
  dtype of \<open>y\<close>, and its content is whatever the memory held: a slot that was never written
  is \<open>None\<close>, a written slot holds \<open>Some\<close> of the value stored. The values must be as many as
  the positions, or a single one that is broadcast; anything else is numpy's shape mismatch,
  a \<open>ValueError\<close>. The values are converted to the dtype of the array before they are
  stored. With a repeated position the last value written stays.
\<close>

definition put_rows ::
  "('p \<Rightarrow> error + 'l) \<Rightarrow> 'l option list \<Rightarrow> nat list \<Rightarrow> 'p list \<Rightarrow> error + 'l option list" where
  "put_rows cast preds idx vals =
     (if length vals \<noteq> length idx \<and> length vals \<noteq> 1 then Inl ValueError
      else if \<not> (\<forall>i \<in> set idx. i < length preds) then Inl IndexError
      else case cast_all cast vals of
             Inl e \<Rightarrow> Inl e
           | Inr us \<Rightarrow>
               if length us = length idx
               then Inr (fold (\<lambda>(i, u) p. p[i := Some u]) (zip idx us) preds)
               else Inr (fold (\<lambda>i p. p[i := Some (hd us)]) idx preds))"

section \<open>StratifiedKFoldTestPredictions\<close>

text \<open>
  One attempt at fitting on a fold: the arguments \<^verbatim>\<open>X[train_index]\<close> and
  \<^verbatim>\<open>y[train_index]\<close> are evaluated first (inside the \<^verbatim>\<open>try\<close> block for the first attempt),
  then \<open>fit\<close> is called. \<open>hint\<close> is \<open>Some n_jobs\<close> for the call with the keyword and \<open>None\<close>
  for the call without it.
\<close>

definition fit_attempt ::
  "('clf, 'x, 'l, 'p) estimator \<Rightarrow> int option \<Rightarrow> 'clf \<Rightarrow> 'x list \<Rightarrow> 'l list \<Rightarrow> nat list
     \<Rightarrow> 'clf \<times> error option" where
  "fit_attempt est hint clf X y train_index =
     (case take_rows X train_index of
        Inl e \<Rightarrow> (clf, Some e)
      | Inr X_train \<Rightarrow>
          (case take_rows y train_index of
             Inl e \<Rightarrow> (clf, Some e)
           | Inr y_train \<Rightarrow>
               (case hint of
                  Some n \<Rightarrow> clf_fit_n_jobs est clf X_train y_train n
                | None \<Rightarrow> clf_fit est clf X_train y_train)))"

text \<open>
  \<^verbatim>\<open>try: clf.fit(X[train_index], y[train_index], n_jobs=n_jobs)\<close>
  \<^verbatim>\<open>except: clf.fit(X[train_index], y[train_index])\<close>:
  the bare \<^verbatim>\<open>except\<close> catches every exception; the retry runs on the object as the first
  attempt left it.
\<close>

definition fit_fold ::
  "('clf, 'x, 'l, 'p) estimator \<Rightarrow> int \<Rightarrow> 'clf \<Rightarrow> 'x list \<Rightarrow> 'l list \<Rightarrow> nat list
     \<Rightarrow> 'clf \<times> error option" where
  "fit_fold est n_jobs clf X y train_index =
     (case fit_attempt est (Some n_jobs) clf X y train_index of
        (clf', None) \<Rightarrow> (clf', None)
      | (clf', Some _) \<Rightarrow> fit_attempt est None clf' X y train_index)"

text \<open>The loop over the folds; \<open>preds\<close> is the array being filled.\<close>

fun skf_loop ::
  "('clf, 'x, 'l, 'p) estimator \<Rightarrow> ('p \<Rightarrow> error + 'l) \<Rightarrow> int \<Rightarrow> 'x list \<Rightarrow> 'l list \<Rightarrow> 'clf
     \<Rightarrow> 'l option list \<Rightarrow> folds \<Rightarrow> error + 'l option list" where
  "skf_loop est cast n_jobs X y clf preds [] = Inr preds"
| "skf_loop est cast n_jobs X y clf preds ((train_index, test_index) # rest) =
     (case fit_fold est n_jobs clf X y train_index of
        (clf', Some e) \<Rightarrow> Inl e
      | (clf', None) \<Rightarrow>
          (case take_rows X test_index of
             Inl e \<Rightarrow> Inl e
           | Inr X_test \<Rightarrow>
               (case clf_predict est clf' X_test of
                  Inl e \<Rightarrow> Inl e
                | Inr p \<Rightarrow>
                    (case put_rows cast preds test_index p of
                       Inl e \<Rightarrow> Inl e
                     | Inr preds' \<Rightarrow> skf_loop est cast n_jobs X y clf' preds' rest))))"

text \<open>
  \<^verbatim>\<open>StratifiedKFoldTestPredictions(X, y, clf, k, n_jobs)\<close>. The splitter is built with
  \<^verbatim>\<open>StratifiedKFold(n_splits=k)\<close>: no seed, no shuffling. \<open>cast\<close> is the conversion to the
  dtype of \<open>y\<close>. The result is the array of predictions (or the exception) and the state of
  the library after the call.
\<close>

definition StratifiedKFoldTestPredictions ::
  "('x, 'l, 'w) splitter \<Rightarrow> ('clf, 'x, 'l, 'p) estimator \<Rightarrow> ('p \<Rightarrow> error + 'l) \<Rightarrow> 'x list \<Rightarrow> 'l list
     \<Rightarrow> 'clf \<Rightarrow> int \<Rightarrow> int \<Rightarrow> 'w \<Rightarrow> (error + 'l option list) \<times> 'w" where
  "StratifiedKFoldTestPredictions split est cast X y clf k n_jobs w =
     (case split k None False X y w of
        (Inl e, w') \<Rightarrow> (Inl e, w')
      | (Inr fs, w') \<Rightarrow> (skf_loop est cast n_jobs X y clf (replicate (length y) None) fs, w'))"
section \<open>The numpy reductions the grid search uses\<close>

text \<open>
  Modelled from the spec: numpy's floating-point scores and its \<^verbatim>\<open>mean\<close>, \<^verbatim>\<open>std\<close> and
  \<^verbatim>\<open>argmax\<close>, which are not part of the repository; the spec speaks of the mean and standard
  deviation of the fold scores and of the maximum mean, ties broken by first occurrence.
  A score is a number or \<open>nan\<close> (a scoring function may return it, and so does the mean of no
  scores); numbers are real numbers here. A comparison with \<open>nan\<close> is false. The mean and
  the standard deviation (of the population) of scores among which one is \<open>nan\<close> are \<open>nan\<close>.
\<close>

datatype npfloat = NaN | Fin real

fun np_le :: "npfloat \<Rightarrow> npfloat \<Rightarrow> bool" where
  "np_le (Fin a) (Fin b) = (a \<le> b)"
| "np_le _ _ = False"

fun np_less :: "npfloat \<Rightarrow> npfloat \<Rightarrow> bool" where
  "np_less (Fin a) (Fin b) = (a < b)"
| "np_less _ _ = False"

fun numbers :: "npfloat list \<Rightarrow> real list option" where
  "numbers [] = Some []"
| "numbers (NaN # xs) = None"
| "numbers (Fin a # xs) = (case numbers xs of None \<Rightarrow> None | Some as \<Rightarrow> Some (a # as))"

definition np_mean :: "npfloat list \<Rightarrow> npfloat" where
  "np_mean a =
     (case numbers a of
        None \<Rightarrow> NaN
      | Some as \<Rightarrow> if as = [] then NaN else Fin (sum_list as / real (length as)))"

definition np_std :: "npfloat list \<Rightarrow> npfloat" where
  "np_std a =
     (case numbers a of
        None \<Rightarrow> NaN
      | Some as \<Rightarrow>
          if as = [] then NaN
          else Fin (sqrt (sum_list (map (\<lambda>x. (x - sum_list as / real (length as))\<^sup>2) as)
                           / real (length as))))"

text \<open>
  \<^verbatim>\<open>np.argmax\<close>: an empty sequence raises \<open>ValueError\<close>. The scan keeps the best position so
  far and moves it to an entry that is not less than or equal to the best one: a strictly
  larger number, or \<open>nan\<close>; it stops at the first \<open>nan\<close>. So the result is the position of
  the first \<open>nan\<close> when there is one, and of the first occurrence of the maximum otherwise.
\<close>

fun argmax_loop :: "npfloat list \<Rightarrow> nat \<Rightarrow> nat \<Rightarrow> npfloat \<Rightarrow> nat" where
  "argmax_loop [] i best_i best = best_i"
| "argmax_loop (x # xs) i best_i best =
     (if best = NaN then best_i
      else if \<not> np_le x best then argmax_loop xs (Suc i) i x
      else argmax_loop xs (Suc i) best_i best)"

definition np_argmax :: "npfloat list \<Rightarrow> error + nat" where
  "np_argmax a = (case a of [] \<Rightarrow> Inl ValueError | x # xs \<Rightarrow> Inr (argmax_loop xs 1 0 x))"

section \<open>Parameter grid and parallel map\<close>

text \<open>
  Modelled from the spec: scikit-learn's \<^verbatim>\<open>ParameterGrid\<close>, which is not part of the
  repository. The spec calls it the Cartesian product of the caller-supplied option lists,
  enumerated as full candidate configurations. The library sorts the parameter names and
  lets the last name vary fastest; a grid without names has one candidate, the empty one.
\<close>

fun grid_product :: "('k \<times> 'v list) list \<Rightarrow> ('k \<times> 'v) list list" where
  "grid_product [] = [[]]"
| "grid_product ((k, vs) # rest) =
     concat (map (\<lambda>v. map (\<lambda>ps. (k, v) # ps) (grid_product rest)) vs)"

definition ParameterGrid :: "(string \<times> 'v list) list \<Rightarrow> (string \<times> 'v) list list" where
  "ParameterGrid param_grid = grid_product (sort_key fst param_grid)"

text \<open>
  Modelled from the spec: joblib's \<^verbatim>\<open>Parallel(...)(delayed(f)(a) for a in args)\<close>, which is
  not part of the repository. The jobs complete in any order: \<open>finish i\<close> is the time at which
  job \<open>i\<close> completes, and the jobs are met in the order of these times. Each completed job
  hands in its position and its result; the list returned is put back in the order of the
  positions. The first job met that raises aborts the whole call with its exception.
\<close>

fun run_jobs :: "(nat \<Rightarrow> error + 'r) \<Rightarrow> nat list \<Rightarrow> error + (nat \<times> 'r) list" where
  "run_jobs job [] = Inr []"
| "run_jobs job (i # order) =
     (case job i of
        Inl e \<Rightarrow> Inl e
      | Inr r \<Rightarrow>
          (case run_jobs job order of
             Inl e \<Rightarrow> Inl e
           | Inr completed \<Rightarrow> Inr ((i, r) # completed)))"

definition Parallel :: "(nat \<Rightarrow> nat) \<Rightarrow> ('a \<Rightarrow> error + 'r) \<Rightarrow> 'a list \<Rightarrow> error + 'r list" where
  "Parallel finish f args =
     (case run_jobs (\<lambda>i. f (args ! i)) (sort_key finish [0..<length args]) of
        Inl e \<Rightarrow> Inl e
      | Inr completed \<Rightarrow> Inr (map snd (sort_key fst completed)))"

section \<open>gridsearch\<close>

text \<open>
  The object: the seven fields that \<^verbatim>\<open>__init__\<close> sets, and the attributes that \<^verbatim>\<open>fit\<close>
  sets, \<open>None\<close> while the attribute does not exist. The attributes
  \<^verbatim>\<open>scoring_results_\<close>, \<^verbatim>\<open>best_index_\<close>, \<^verbatim>\<open>best_params_\<close> and \<^verbatim>\<open>best_score_\<close> are written
  without their last underscore, which the logic reserves. A candidate is a dictionary
  from parameter names to values; \<open>method\<close> is called with keyword arguments and may raise.
  The scoring function takes the true labels and the predictions. A result is the list
  \<^verbatim>\<open>[params, scores, np.mean(scores)]\<close>.
\<close>

type_synonym 'v params = "(string \<times> 'v) list"

type_synonym 'v result = "'v params \<times> npfloat list \<times> npfloat"

record ('clf, 'l, 'p, 'v) gridsearch =
  "method" :: "'v params \<Rightarrow> error + 'clf"
  grid_params :: "(string \<times> 'v list) list"
  scoring :: "'l list \<Rightarrow> 'p list \<Rightarrow> error + npfloat"
  cv :: int
  n_jobs :: int
  random_state :: "int option"
  kwargs :: "'v params option"
  k_fold_splits :: "folds option"
  scoring_results :: "'v result list option"
  best_index :: "nat option"
  best_params :: "'v params option"
  best_score :: "(npfloat \<times> npfloat) option"

definition gridsearch_init ::
  "('v params \<Rightarrow> error + 'clf) \<Rightarrow> (string \<times> 'v list) list \<Rightarrow> ('l list \<Rightarrow> 'p list \<Rightarrow> error + npfloat)
     \<Rightarrow> int \<Rightarrow> int \<Rightarrow> int option \<Rightarrow> 'v params option \<Rightarrow> ('clf, 'l, 'p, 'v) gridsearch" where
  "gridsearch_init method' grid_params' scoring' cv' n_jobs' random_state' kwargs' =
     \<lparr>method = method', grid_params = grid_params', scoring = scoring', cv = cv',
      n_jobs = n_jobs', random_state = random_state', kwargs = kwargs',
      k_fold_splits = None, scoring_results = None, best_index = None,
      best_params = None, best_score = None\<rparr>"

text \<open>
  \<^verbatim>\<open>_train_test_split\<close>: one call of the splitter, with the object's fold count and seed
  and \<^verbatim>\<open>shuffle=True\<close>.
\<close>

definition gridsearch_train_test_split ::
  "('x, 'l, 'w) splitter \<Rightarrow> ('clf, 'l, 'p, 'v) gridsearch \<Rightarrow> 'x list \<Rightarrow> 'l list \<Rightarrow> 'w
     \<Rightarrow> (error + folds) \<times> 'w" where
  "gridsearch_train_test_split split self X y w =
     split (cv self) (random_state self) True X y w"

text \<open>
  \<^verbatim>\<open>self.method(**params)\<close> or \<^verbatim>\<open>self.method(**params, **self.kwargs)\<close>; a name given by
  both dictionaries is a \<open>TypeError\<close> of the call.
\<close>

definition construct :: "('clf, 'l, 'p, 'v) gridsearch \<Rightarrow> 'v params \<Rightarrow> error + 'clf" where
  "construct self params =
     (case kwargs self of
        None \<Rightarrow> method self params
      | Some kw \<Rightarrow>
          if \<exists>k \<in> set (map fst params). k \<in> set (map fst kw) then Inl TypeError
          else method self (params @ kw))"

text \<open>The loop of \<^verbatim>\<open>_eval\<close> over the folds; \<open>scores\<close> is the list being appended to.\<close>

fun eval_folds ::
  "('clf, 'x, 'l, 'p) estimator \<Rightarrow> ('l list \<Rightarrow> 'p list \<Rightarrow> error + npfloat) \<Rightarrow> 'x list \<Rightarrow> 'l list
     \<Rightarrow> 'clf \<Rightarrow> npfloat list \<Rightarrow> folds \<Rightarrow> error + npfloat list" where
  "eval_folds est score X y clf scores [] = Inr scores"
| "eval_folds est score X y clf scores ((train_index, test_index) # rest) =
     (case fit_attempt est None clf X y train_index of
        (clf', Some e) \<Rightarrow> Inl e
      | (clf', None) \<Rightarrow>
          (case take_rows y test_index of
             Inl e \<Rightarrow> Inl e
           | Inr y_test \<Rightarrow>
               (case take_rows X test_index of
                  Inl e \<Rightarrow> Inl e
                | Inr X_test \<Rightarrow>
                    (case clf_predict est clf' X_test of
                       Inl e \<Rightarrow> Inl e
                     | Inr p \<Rightarrow>
                         (case score y_test p of
                            Inl e \<Rightarrow> Inl e
                          | Inr s \<Rightarrow> eval_folds est score X y clf' (scores @ [s]) rest)))))"

text \<open>
  \<^verbatim>\<open>_eval\<close>: build the estimator, then run the folds stored in the object; reading
  \<^verbatim>\<open>self.k_fold_splits\<close> before \<^verbatim>\<open>fit\<close> has set it is an \<open>AttributeError\<close>.
\<close>

definition gridsearch_eval ::
  "('clf, 'x, 'l, 'p) estimator \<Rightarrow> ('clf, 'l, 'p, 'v) gridsearch \<Rightarrow> 'x list \<Rightarrow> 'l list \<Rightarrow> 'v params
     \<Rightarrow> error + 'v result" where
  "gridsearch_eval est self X y params =
     (case construct self params of
        Inl e \<Rightarrow> Inl e
      | Inr clf \<Rightarrow>
          (case k_fold_splits self of
             None \<Rightarrow> Inl AttributeError
           | Some fs \<Rightarrow>
               (case eval_folds est (scoring self) X y clf [] fs of
                  Inl e \<Rightarrow> Inl e
                | Inr scores \<Rightarrow> Inr (params, scores, np_mean scores))))"

text \<open>
  \<^verbatim>\<open>fit\<close>. The result is the exception raised, if any, the object as the call leaves it,
  and the state of the splitter's library. The progress bar is left out. The degree of
  parallelism \<open>n_jobs\<close> only bounds how many jobs run at once: the order of completion
  \<open>finish\<close> stands for every schedule. \<^verbatim>\<open>self.scoring_results_[self.best_index_]\<close> raises
  \<open>IndexError\<close> for a position outside the list.
\<close>

definition gridsearch_fit ::
  "('x, 'l, 'w) splitter \<Rightarrow> ('clf, 'x, 'l, 'p) estimator \<Rightarrow> (nat \<Rightarrow> nat)
     \<Rightarrow> ('clf, 'l, 'p, 'v) gridsearch \<Rightarrow> 'x list \<Rightarrow> 'l list \<Rightarrow> 'w
     \<Rightarrow> error option \<times> ('clf, 'l, 'p, 'v) gridsearch \<times> 'w" where
  "gridsearch_fit split est finish self X y w =
     (case gridsearch_train_test_split split self X y w of
        (Inl e, w') \<Rightarrow> (Some e, self, w')
      | (Inr fs, w') \<Rightarrow>
          (let self1 = self\<lparr>k_fold_splits := Some fs\<rparr>;
               grid = ParameterGrid (grid_params self1)
           in case Parallel finish (gridsearch_eval est self1 X y) grid of
                Inl e \<Rightarrow> (Some e, self1, w')
              | Inr results \<Rightarrow>
                  (let self2 = self1\<lparr>scoring_results := Some results\<rparr>
                   in case np_argmax (map (\<lambda>result. snd (snd result)) results) of
                        Inl e \<Rightarrow> (Some e, self2, w')
                      | Inr b \<Rightarrow>
                          (let self3 = self2\<lparr>best_index := Some b\<rparr>
                           in if b < length results
                              then (None,
                                    self3\<lparr>best_params := Some (fst (results ! b)),
                                          best_score := Some (np_mean (fst (snd (results ! b))),
                                                              np_std (fst (snd (results ! b))))\<rparr>,
                                    w')
                              else (Some IndexError, self3, w')))))"
section \<open>Reporting helpers\<close>

text \<open>
  Modelled from the spec: pandas' \<^verbatim>\<open>crosstab(index, columns, margins=True,\<close>
  \<^verbatim>\<open>margins_name='total', normalize=...)\<close> and the assignment and rounding of a
  \<^verbatim>\<open>DataFrame\<close>, which are not part of the repository. The spec's words are: cross-tabulate
  predictions against true labels with margins, optionally normalized, rounded to 2
  decimals. A frame has row labels, column labels and rows of cells. The table has one row
  for each distinct value of the first array and one column for each distinct value of the
  second, in sorted order, then the row and the column named \<open>total\<close>, which hold the sums.
  With normalization every count is divided by the number of samples, and the corner is 1.
  Arrays of different lengths cannot be tabulated: \<open>ValueError\<close>. The table of empty arrays
  is empty, without margins, and normalizing it raises \<open>IndexError\<close>.
  Cells are real numbers here, floating-point numbers in the program.
\<close>

datatype 'l axis_label = Label 'l | Name string

record ('r, 'c) frame =
  index :: "'r list"
  columns :: "'c list"
  cells :: "real list list"

definition crosstab ::
  "'l::linorder list \<Rightarrow> 'l list \<Rightarrow> bool \<Rightarrow> error + ('l axis_label, 'l axis_label) frame" where
  "crosstab index_arr columns_arr normalize' =
     (if length index_arr \<noteq> length columns_arr then Inl ValueError
      else if index_arr = []
        then (if normalize' then Inl IndexError else Inr \<lparr>index = [], columns = [], cells = []\<rparr>)
      else
        let rows = sort (remdups index_arr);
            cols = sort (remdups columns_arr);
            pairs = zip index_arr columns_arr;
            count = (\<lambda>r c. real (length (filter (\<lambda>(i, c'). i = r \<and> c' = c) pairs)));
            row_total = (\<lambda>r. sum_list (map (\<lambda>c. count r c) cols));
            col_total = (\<lambda>c. sum_list (map (\<lambda>r. count r c) rows));
            total = real (length pairs);
            scale = (\<lambda>v. if normalize' then v / total else v)
        in Inr \<lparr>index = map Label rows @ [Name ''total''],
                columns = map Label cols @ [Name ''total''],
                cells = map (\<lambda>r. map (\<lambda>c. scale (count r c)) cols @ [scale (row_total r)]) rows
                        @ [map (\<lambda>c. scale (col_total c)) cols @ [if normalize' then 1 else total]]\<rparr>)"

text \<open>
  \<^verbatim>\<open>df.columns = labels\<close> and \<^verbatim>\<open>df.index = labels\<close>: the new labels must be as many as the
  axis has entries, or the assignment raises \<open>ValueError\<close> (pandas' length mismatch).
\<close>

definition set_columns :: "('r, 'c) frame \<Rightarrow> 'd list \<Rightarrow> error + ('r, 'd) frame" where
  "set_columns df labels =
     (if length labels \<noteq> length (columns df) then Inl ValueError
      else Inr \<lparr>index = index df, columns = labels, cells = cells df\<rparr>)"

definition set_index :: "('r, 'c) frame \<Rightarrow> 'd list \<Rightarrow> error + ('d, 'c) frame" where
  "set_index df labels =
     (if length labels \<noteq> length (index df) then Inl ValueError
      else Inr \<lparr>index = labels, columns = columns df, cells = cells df\<rparr>)"

text \<open>
  \<^verbatim>\<open>df.round(decimals)\<close> rounds every cell; the rounding \<open>rnd\<close> of one cell to a
  number of decimals is the library's and a parameter. \<open>np_round\<close> is that rounding on the
  exact value: multiplied by the power of ten, rounded to the nearest integer with halves
  going to the even one, divided again. The library rounds the double nearest to the value,
  which on some cells falls on the other side of a half (23/40 is 0.58 here).
\<close>

definition round_half_even :: "real \<Rightarrow> int" where
  "round_half_even x =
     (let f = \<lfloor>x\<rfloor>; d = x - of_int f
      in if d < 1 / 2 then f else if 1 / 2 < d then f + 1 else if even f then f else f + 1)"

definition np_round :: "nat \<Rightarrow> real \<Rightarrow> real" where
  "np_round decimals x = of_int (round_half_even (x * 10 ^ decimals)) / 10 ^ decimals"

definition frame_round ::
  "(nat \<Rightarrow> real \<Rightarrow> real) \<Rightarrow> nat \<Rightarrow> ('r, 'c) frame \<Rightarrow> ('r, 'c) frame" where
  "frame_round rnd decimals df = df\<lparr>cells := map (map (rnd decimals)) (cells df)\<rparr>"

text \<open>
  \<^verbatim>\<open>confusion_matrix(preds, y, normalize)\<close>: the cross-tab of the predictions (rows)
  against the true labels (columns), both axes relabelled \<^verbatim>\<open>[0, 1, 'total']\<close>, rounded
  to 2 decimals. The parameter \<^verbatim>\<open>normalize\<close> is written \<open>normalize'\<close>.
\<close>

definition confusion_matrix ::
  "(nat \<Rightarrow> real \<Rightarrow> real) \<Rightarrow> 'l::linorder list \<Rightarrow> 'l list \<Rightarrow> bool
     \<Rightarrow> error + (int axis_label, int axis_label) frame" where
  "confusion_matrix rnd preds y normalize' =
     (case crosstab preds y normalize' of
        Inl e \<Rightarrow> Inl e
      | Inr table \<Rightarrow>
          (case set_columns table [Label 0, Label 1, Name ''total''] of
             Inl e \<Rightarrow> Inl e
           | Inr table1 \<Rightarrow>
               (case set_index table1 [Label 0, Label 1, Name ''total''] of
                  Inl e \<Rightarrow> Inl e
                | Inr table2 \<Rightarrow> Inr (frame_round rnd 2 table2))))"

text \<open>
  Modelled from the spec: scikit-learn's \<^verbatim>\<open>matthews_corrcoef\<close>, which is not part of the
  repository; the spec calls it a correlation coefficient in \<open>[-1, 1]\<close>. It is the library's
  formula over the confusion counts: with \<open>t_k\<close> and \<open>p_k\<close> the numbers of true and of
  predicted labels of class \<open>k\<close>, \<open>c\<close> the number of correct predictions and \<open>n\<close> the
  number of samples, the covariance \<open>c n - \<Sum> t_k p_k\<close> over the square root of the product
  of \<open>n\<^sup>2 - \<Sum> p_k\<^sup>2\<close> and \<open>n\<^sup>2 - \<Sum> t_k\<^sup>2\<close>, and 0 when that product is 0. Label vectors of
  different lengths raise \<open>ValueError\<close>. \<open>class_dot\<close> is the dot product of two vectors of
  class counts.
\<close>

definition class_dot :: "'l list \<Rightarrow> 'l list \<Rightarrow> 'l list \<Rightarrow> real" where
  "class_dot classes a b = (\<Sum>k\<leftarrow>classes. real (count_list a k) * real (count_list b k))"

definition matthews_corrcoef :: "'l list \<Rightarrow> 'l list \<Rightarrow> error + real" where
  "matthews_corrcoef y_true y_pred =
     (if length y_true \<noteq> length y_pred then Inl ValueError
      else
        let classes = remdups (y_true @ y_pred);
            n_correct = real (length (filter (\<lambda>(t, p). t = p) (zip y_true y_pred)));
            n_samples = real (length y_pred);
            cov_ytyp = n_correct * n_samples - class_dot classes y_true y_pred;
            cov_ypyp = n_samples\<^sup>2 - class_dot classes y_pred y_pred;
            cov_ytyt = n_samples\<^sup>2 - class_dot classes y_true y_true
        in if cov_ypyp * cov_ytyt = 0 then Inr 0
           else Inr (cov_ytyp / sqrt (cov_ytyt * cov_ypyp)))"

text \<open>\<^verbatim>\<open>scaled_mcc(y_true, y_pred)\<close>: \<^verbatim>\<open>(matthews_corrcoef(y_true, y_pred) + 1) / 2\<close>.\<close>

definition scaled_mcc :: "'l list \<Rightarrow> 'l list \<Rightarrow> error + real" where
  "scaled_mcc y_true y_pred =
     (case matthews_corrcoef y_true y_pred of
        Inl e \<Rightarrow> Inl e
      | Inr m \<Rightarrow> Inr ((m + 1) / 2))"
section \<open>Notions for the statements, and a small instance\<close>

text \<open>
  \<open>fitted est nj X_train y_train c c'\<close>: the object \<open>c'\<close> is the object \<open>c\<close> fitted on the
  training rows as the predictor does it. The call with the keyword \<open>n_jobs\<close> comes first;
  when it returns, \<open>c'\<close> is the object it leaves; when it raises, whatever the exception,
  \<open>c'\<close> is what the call without the keyword leaves, started on the object the first call
  left, and that second call returns.
\<close>

definition fitted ::
  "('clf, 'x, 'l, 'p) estimator \<Rightarrow> int \<Rightarrow> 'x list \<Rightarrow> 'l list \<Rightarrow> 'clf \<Rightarrow> 'clf \<Rightarrow> bool" where
  "fitted est nj X_train y_train c c' \<longleftrightarrow>
     (case clf_fit_n_jobs est c X_train y_train nj of
        (c1, None) \<Rightarrow> c' = c1
      | (c1, Some e) \<Rightarrow> clf_fit est c1 X_train y_train = (c', None))"

text \<open>
  \<open>mask_hint_errors e0 est\<close> is the estimator \<open>est\<close> with every exception of its
  \<^verbatim>\<open>fit(..., n_jobs=...)\<close> replaced by \<open>e0\<close>.
\<close>

definition mask_hint_errors ::
  "error \<Rightarrow> ('clf, 'x, 'l, 'p) estimator \<Rightarrow> ('clf, 'x, 'l, 'p) estimator" where
  "mask_hint_errors e0 est =
     est\<lparr>clf_fit_n_jobs := (\<lambda>clf X y n.
            case clf_fit_n_jobs est clf X y n of
              (clf', None) \<Rightarrow> (clf', None)
            | (clf', Some _) \<Rightarrow> (clf', Some e0))\<rparr>"

text \<open>
  \<open>evaluated_on est score X y fs clf scores\<close>: the scores are those of the estimator object
  \<open>clf\<close> on the folds \<open>fs\<close>, fold after fold: the positions of every fold lie in the data;
  the objects \<open>cs\<close> are the object before the first fold and after each fit; the fit of fold
  \<open>j\<close> is on the rows and labels at its training positions and returns; the score of fold
  \<open>j\<close> is the scoring function on the labels at its test positions and on the predictions
  of the object just fitted for the rows at its test positions.
\<close>

definition evaluated_on ::
  "('clf, 'x, 'l, 'p) estimator \<Rightarrow> ('l list \<Rightarrow> 'p list \<Rightarrow> error + npfloat) \<Rightarrow> 'x list \<Rightarrow> 'l list
     \<Rightarrow> folds \<Rightarrow> 'clf \<Rightarrow> npfloat list \<Rightarrow> bool" where
  "evaluated_on est score X y fs clf scores \<longleftrightarrow>
     (\<exists>cs. length cs = Suc (length fs) \<and> cs ! 0 = clf \<and> length scores = length fs \<and>
        (\<forall>j < length fs.
           (\<forall>i \<in> set (fst (fs ! j)) \<union> set (snd (fs ! j)). i < length X \<and> i < length y) \<and>
           clf_fit est (cs ! j) (map (\<lambda>i. X ! i) (fst (fs ! j))) (map (\<lambda>i. y ! i) (fst (fs ! j)))
             = (cs ! Suc j, None) \<and>
           (\<exists>p. clf_predict est (cs ! Suc j) (map (\<lambda>i. X ! i) (snd (fs ! j))) = Inr p \<and>
                score (map (\<lambda>i. y ! i) (snd (fs ! j))) p = Inr (scores ! j))))"


text \<open>
  A small instance on which the definitions are run: four samples with one feature, two
  classes and two folds. The splitter advances the state of its library by one at every
  call; without a seed its shuffling depends on that state, with a seed on the seed only.
  The estimator learns a threshold (the midpoint of its training rows, shifted by its
  parameter \<open>bias\<close>), does not know the keyword \<open>n_jobs\<close>, and refuses a bias above 100; its
  predictions are labels, which the conversion to the dtype of the labels leaves as they
  are. The scoring function is the accuracy.
\<close>

definition toy_split :: "('x, 'l, nat) splitter" where
  "toy_split n_splits seed shuffle X y w =
     (if n_splits \<noteq> 2 \<or> length X \<noteq> 4 \<or> length y \<noteq> 4 then (Inl ValueError, Suc w)
      else if shuffle \<and> odd (case seed of None \<Rightarrow> int w | Some s \<Rightarrow> s)
        then (Inr [([1, 2], [0, 3]), ([0, 3], [1, 2])], Suc w)
        else (Inr [([1, 3], [0, 2]), ([0, 2], [1, 3])], Suc w))"

definition toy_est :: "(nat \<times> nat option, nat, nat, nat) estimator" where
  "toy_est =
     \<lparr>clf_fit_n_jobs = (\<lambda>clf X y n. (clf, Some TypeError)),
      clf_fit = (\<lambda>clf X y.
         if X = [] then (clf, Some ValueError)
         else if 100 < fst clf then ((fst clf, None), Some (Raised ''bias too large''))
         else ((fst clf, Some ((fold min X (hd X) + fold max X (hd X)) div 2 + fst clf)), None)),
      clf_predict = (\<lambda>clf X.
         case snd clf of
           None \<Rightarrow> Inl (Raised ''NotFittedError'')
         | Some t \<Rightarrow> Inr (map (\<lambda>x. if x < t then 0 else 1) X))\<rparr>"

definition toy_cast :: "nat \<Rightarrow> error + nat" where
  "toy_cast v = Inr v"

definition toy_method :: "nat params \<Rightarrow> error + nat \<times> nat option" where
  "toy_method params =
     (case map_of params ''bias'' of None \<Rightarrow> Inl TypeError | Some b \<Rightarrow> Inr (b, None))"

definition toy_accuracy :: "nat list \<Rightarrow> nat list \<Rightarrow> error + npfloat" where
  "toy_accuracy y_true y_pred =
     (if length y_true \<noteq> length y_pred \<or> y_true = [] then Inl ValueError
      else Inr (Fin (real (length (filter (\<lambda>(t, p). t = p) (zip y_true y_pred)))
                      / real (length y_true))))"

definition toy_X :: "nat list" where "toy_X = [1, 2, 8, 9]"

definition toy_y :: "nat list" where "toy_y = [0, 0, 1, 1]"

definition toy_search :: "(string \<times> nat list) list \<Rightarrow> (nat \<times> nat option, nat, nat, nat) gridsearch" where
  "toy_search grid = gridsearch_init toy_method grid toy_accuracy 2 (-1) (Some 1234) None"

text \<open>
  Four variants. A scoring function that is \<open>nan\<close> on constant predictions, as a
  correlation is. An estimator with randomness of its own: \<open>toy_random_est g\<close> is its
  behaviour in a run in which the random generator it draws from is in state \<open>g\<close>. An
  estimator that predicts scores between 0 and 1 for integer labels, and the conversion of
  such a score to an integer, which truncates. An estimator that knows the keyword
  \<open>n_jobs\<close>: called with it, its \<open>fit\<close> takes the first training row as threshold.
\<close>

definition toy_correlation :: "nat list \<Rightarrow> nat list \<Rightarrow> error + npfloat" where
  "toy_correlation y_true y_pred =
     (if \<forall>p \<in> set y_pred. p = hd y_pred then Inr NaN else toy_accuracy y_true y_pred)"


definition toy_score_est :: "(bool, nat, int, real) estimator" where
  "toy_score_est =
     \<lparr>clf_fit_n_jobs = (\<lambda>clf X y n. (clf, Some TypeError)),
      clf_fit = (\<lambda>clf X y. (True, None)),
      clf_predict = (\<lambda>clf X.
         if clf then Inr (map (\<lambda>x. real x / 10) X) else Inl (Raised ''NotFittedError''))\<rparr>"

definition toy_hint_est :: "(nat \<times> nat option, nat, nat, nat) estimator" where
  "toy_hint_est =
     toy_est\<lparr>clf_fit_n_jobs := (\<lambda>clf X y n.
        if X = [] then (clf, Some ValueError) else ((fst clf, Some (hd X)), None))\<rparr>"

definition toy_truncate :: "real \<Rightarrow> error + int" where
  "toy_truncate v = Inr (if 0 \<le> v then \<lfloor>v\<rfloor> else \<lceil>v\<rceil>)"

definition toy_y_int :: "int list" where "toy_y_int = [0, 0, 1, 1]"

section \<open>Properties\<close>

lemma take_rows_Inr:
  "take_rows a idx = Inr r \<longleftrightarrow> r = map (\<lambda>i. a ! i) idx \<and> (\<forall>i \<in> set idx. i < length a)"
  by (auto simp: take_rows_def)

lemma take_rows_in_range:
  "\<forall>i \<in> set idx. i < length a \<Longrightarrow> take_rows a idx = Inr (map (\<lambda>i. a ! i) idx)"
  by (simp add: take_rows_def)

lemma fit_attempt_in_range:
  assumes "\<forall>i \<in> set tr. i < length X \<and> i < length y"
  shows "fit_attempt est (Some n) clf X y tr =
           clf_fit_n_jobs est clf (map (\<lambda>i. X ! i) tr) (map (\<lambda>i. y ! i) tr) n"
    and "fit_attempt est None clf X y tr =
           clf_fit est clf (map (\<lambda>i. X ! i) tr) (map (\<lambda>i. y ! i) tr)"
  using assms by (simp_all add: fit_attempt_def take_rows_in_range)

lemma fit_attempt_out_of_range:
  assumes "\<not> (\<forall>i \<in> set tr. i < length X \<and> i < length y)"
  shows "fit_attempt est hint clf X y tr = (clf, Some IndexError)"
  using assms by (auto simp: fit_attempt_def take_rows_def)

lemma fit_fold_in_range:
  assumes "\<forall>i \<in> set tr. i < length X \<and> i < length y"
  shows "fit_fold est nj clf X y tr =
     (case clf_fit_n_jobs est clf (map (\<lambda>i. X ! i) tr) (map (\<lambda>i. y ! i) tr) nj of
        (c1, None) \<Rightarrow> (c1, None)
      | (c1, Some e) \<Rightarrow> clf_fit est c1 (map (\<lambda>i. X ! i) tr) (map (\<lambda>i. y ! i) tr))"
  by (simp add: fit_fold_def fit_attempt_in_range[OF assms] split: prod.splits option.splits)

lemma fit_fold_returns:
  assumes "fit_fold est nj clf X y tr = (c', None)"
  shows "(\<forall>i \<in> set tr. i < length X \<and> i < length y) \<and>
         fitted est nj (map (\<lambda>i. X ! i) tr) (map (\<lambda>i. y ! i) tr) clf c'"
proof (cases "\<forall>i \<in> set tr. i < length X \<and> i < length y")
  case True
  show ?thesis using assms True unfolding fit_fold_in_range[OF True] fitted_def
    by (auto split: prod.splits option.splits)
next
  case False
  then show ?thesis using assms
    by (simp add: fit_fold_def fit_attempt_out_of_range[OF False])
qed

lemma cast_all_Inr:
  "cast_all cast vs = Inr us \<Longrightarrow>
     length us = length vs \<and> (\<forall>k < length vs. cast (vs ! k) = Inr (us ! k))"
proof (induction vs arbitrary: us)
  case Nil
  then show ?case by simp
next
  case (Cons v vs)
  then obtain u us' where u: "cast v = Inr u" and r: "cast_all cast vs = Inr us'" and us: "us = u # us'"
    by (auto split: sum.splits)
  show ?case using Cons.IH[OF r] u us by (auto simp: nth_Cons split: nat.splits)
qed

lemma put_pairs_length:
  "length (fold (\<lambda>(i, v) p. p[i := Some v]) ps preds) = length preds"
  by (induction ps arbitrary: preds) (auto split: prod.splits)

lemma put_pairs_other:
  "i \<notin> fst ` set ps \<Longrightarrow> fold (\<lambda>(i, v) p. p[i := Some v]) ps preds ! i = preds ! i"
  by (induction ps arbitrary: preds) (auto split: prod.splits)

lemma put_pairs_nth:
  "distinct (map fst ps) \<Longrightarrow> pos < length ps \<Longrightarrow> fst (ps ! pos) < length preds \<Longrightarrow>
   fold (\<lambda>(i, v) p. p[i := Some v]) ps preds ! fst (ps ! pos) = Some (snd (ps ! pos))"
proof (induction ps arbitrary: preds pos)
  case Nil
  then show ?case by simp
next
  case (Cons a ps)
  obtain i v where a: "a = (i, v)" by (cases a)
  show ?case
  proof (cases pos)
    case 0
    have "i \<notin> fst ` set ps" using Cons.prems(1) a by auto
    then show ?thesis using 0 a Cons.prems(3) by (simp add: put_pairs_other)
  next
    case (Suc m)
    then show ?thesis using Cons a by simp
  qed
qed

lemma put_rows_Inr:
  assumes "put_rows cast preds idx vals = Inr preds'" and "length vals = length idx"
  shows "length preds' = length preds"
    and "i \<notin> set idx \<Longrightarrow> preds' ! i = preds ! i"
    and "distinct idx \<Longrightarrow> pos < length idx \<Longrightarrow>
           \<exists>u. cast (vals ! pos) = Inr u \<and> preds' ! (idx ! pos) = Some u"
proof -
  have inb: "\<forall>i \<in> set idx. i < length preds"
    using assms by (auto simp: put_rows_def split: if_splits)
  obtain us where us: "cast_all cast vals = Inr us"
    and eq: "preds' = fold (\<lambda>(i, u) p. p[i := Some u]) (zip idx us) preds"
    using assms by (auto simp: put_rows_def split: if_splits sum.splits dest: cast_all_Inr)
  note C = cast_all_Inr[OF us]
  have lus: "length us = length idx" using C assms(2) by simp
  show "length preds' = length preds" by (simp add: eq put_pairs_length)
  show "preds' ! i = preds ! i" if "i \<notin> set idx"
  proof -
    have "i \<notin> fst ` set (zip idx us)" using that by (auto dest: set_zip_leftD)
    then show ?thesis by (simp add: eq put_pairs_other)
  qed
  show "\<exists>u. cast (vals ! pos) = Inr u \<and> preds' ! (idx ! pos) = Some u"
    if "distinct idx" "pos < length idx"
  proof -
    have "fold (\<lambda>(i, u) p. p[i := Some u]) (zip idx us) preds ! fst (zip idx us ! pos) =
            Some (snd (zip idx us ! pos))"
      using that lus inb by (intro put_pairs_nth) auto
    then have "preds' ! (idx ! pos) = Some (us ! pos)" using that lus by (simp add: eq)
    moreover have "cast (vals ! pos) = Inr (us ! pos)" using C that assms(2) by simp
    ultimately show ?thesis by blast
  qed
qed

lemma fit_attempt_mask_None:
  "fit_attempt (mask_hint_errors e0 est) None clf X y tr = fit_attempt est None clf X y tr"
  by (simp add: fit_attempt_def mask_hint_errors_def split: sum.splits)

lemma fit_attempt_mask_Some:
  "fit_attempt (mask_hint_errors e0 est) (Some n) clf X y tr =
     (case fit_attempt est (Some n) clf X y tr of
        (clf', None) \<Rightarrow> (clf', None)
      | (clf', Some e) \<Rightarrow> (clf', Some (if (\<exists>Xt yt. take_rows X tr = Inr Xt \<and> take_rows y tr = Inr yt) then e0 else e)))"
  by (auto simp add: fit_attempt_def mask_hint_errors_def split: sum.splits prod.splits option.splits)

lemma fit_fold_mask:
  "fit_fold (mask_hint_errors e0 est) n clf X y tr = fit_fold est n clf X y tr"
  by (auto simp add: fit_fold_def fit_attempt_mask_None fit_attempt_mask_Some split: prod.splits option.splits)

lemma clf_predict_mask: "clf_predict (mask_hint_errors e0 est) = clf_predict est"
  by (simp add: mask_hint_errors_def)

lemma skf_loop_mask:
  "skf_loop (mask_hint_errors e0 est) cast n X y clf preds fs = skf_loop est cast n X y clf preds fs"
  by (induction fs arbitrary: clf preds) (auto simp add: fit_fold_mask clf_predict_mask split: prod.splits option.splits sum.splits)

lemma skf_loop_step:
  assumes "skf_loop est cast nj X y clf preds ((tr, te) # fs) = Inr out"
  obtains c p preds' where
    "fit_fold est nj clf X y tr = (c, None)"
    "\<forall>i \<in> set te. i < length X"
    "clf_predict est c (map (\<lambda>i. X ! i) te) = Inr p"
    "put_rows cast preds te p = Inr preds'"
    "skf_loop est cast nj X y c preds' fs = Inr out"
proof -
  from assms obtain c Xt p preds' where
    fit: "fit_fold est nj clf X y tr = (c, None)"
    and tk: "take_rows X te = Inr Xt"
    and pr: "clf_predict est c Xt = Inr p"
    and pt: "put_rows cast preds te p = Inr preds'"
    and rest: "skf_loop est cast nj X y c preds' fs = Inr out"
    by (auto split: prod.splits option.splits sum.splits)
  have "Xt = map (\<lambda>i. X ! i) te" "\<forall>i \<in> set te. i < length X"
    using tk by (simp_all add: take_rows_Inr)
  then show ?thesis using that fit pr pt rest by simp
qed

text \<open>What a run of the loop that returns has done, fold after fold, in calls of the estimator.\<close>

lemma skf_loop_fits:
  assumes "skf_loop est cast nj X y clf preds fs = Inr out"
  shows "\<exists>cs. length cs = Suc (length fs) \<and> cs ! 0 = clf \<and>
           (\<forall>j < length fs.
              fitted est nj (map (\<lambda>i. X ! i) (fst (fs ! j))) (map (\<lambda>i. y ! i) (fst (fs ! j)))
                 (cs ! j) (cs ! Suc j) \<and>
              (\<exists>p. clf_predict est (cs ! Suc j) (map (\<lambda>i. X ! i) (snd (fs ! j))) = Inr p))"
  using assms
proof (induction fs arbitrary: clf preds)
  case Nil
  show ?case by (rule exI[of _ "[clf]"]) simp
next
  case (Cons f fs)
  obtain tr te where f: "f = (tr, te)" by (cases f)
  from Cons.prems[unfolded f] obtain c p preds' where
    fit: "fit_fold est nj clf X y tr = (c, None)"
    and pr: "clf_predict est c (map (\<lambda>i. X ! i) te) = Inr p"
    and rest: "skf_loop est cast nj X y c preds' fs = Inr out"
    by (rule skf_loop_step) blast
  from Cons.IH[OF rest] obtain cs where cs: "length cs = Suc (length fs)" "cs ! 0 = c"
    and all: "\<forall>j < length fs.
              fitted est nj (map (\<lambda>i. X ! i) (fst (fs ! j))) (map (\<lambda>i. y ! i) (fst (fs ! j)))
                 (cs ! j) (cs ! Suc j) \<and>
              (\<exists>p. clf_predict est (cs ! Suc j) (map (\<lambda>i. X ! i) (snd (fs ! j))) = Inr p)"
    by blast
  have ft: "fitted est nj (map (\<lambda>i. X ! i) tr) (map (\<lambda>i. y ! i) tr) clf c"
    using fit_fold_returns[OF fit] by simp
  have "\<forall>j < length (f # fs).
              fitted est nj (map (\<lambda>i. X ! i) (fst ((f # fs) ! j))) (map (\<lambda>i. y ! i) (fst ((f # fs) ! j)))
                 ((clf # cs) ! j) ((clf # cs) ! Suc j) \<and>
              (\<exists>p. clf_predict est ((clf # cs) ! Suc j) (map (\<lambda>i. X ! i) (snd ((f # fs) ! j))) = Inr p)"
  proof (intro allI impI)
    fix j assume j: "j < length (f # fs)"
    show "fitted est nj (map (\<lambda>i. X ! i) (fst ((f # fs) ! j))) (map (\<lambda>i. y ! i) (fst ((f # fs) ! j)))
                 ((clf # cs) ! j) ((clf # cs) ! Suc j) \<and>
              (\<exists>p. clf_predict est ((clf # cs) ! Suc j) (map (\<lambda>i. X ! i) (snd ((f # fs) ! j))) = Inr p)"
    proof (cases j)
      case 0
      then show ?thesis using f ft pr cs by simp
    next
      case (Suc m)
      then show ?thesis using all j by simp
    qed
  qed
  then show ?case using cs by (intro exI[of _ "clf # cs"]) simp
qed

lemma skf_loop_result:
  assumes "skf_loop est cast nj X y clf preds fs = Inr out"
    and "\<forall>c Xs p. clf_predict est c Xs = Inr p \<longrightarrow> length p = length Xs"
    and "distinct (concat (map snd fs))"
  shows "length out = length preds \<and>
         (\<forall>i. i \<notin> set (concat (map snd fs)) \<longrightarrow> out ! i = preds ! i) \<and>
         (\<exists>cs. length cs = Suc (length fs) \<and> cs ! 0 = clf \<and>
           (\<forall>j < length fs.
              fitted est nj (map (\<lambda>i. X ! i) (fst (fs ! j))) (map (\<lambda>i. y ! i) (fst (fs ! j)))
                 (cs ! j) (cs ! Suc j) \<and>
              (\<forall>pos < length (snd (fs ! j)).
                 \<exists>p v. clf_predict est (cs ! Suc j) (map (\<lambda>i. X ! i) (snd (fs ! j))) = Inr p \<and>
                       cast (p ! pos) = Inr v \<and> out ! (snd (fs ! j) ! pos) = Some v)))"
  using assms
proof (induction fs arbitrary: clf preds)
  case Nil
  have "\<exists>cs. length cs = Suc 0 \<and> cs ! 0 = clf" by (rule exI[of _ "[clf]"]) simp
  then show ?case using Nil by simp
next
  case (Cons f fs)
  obtain tr te where f: "f = (tr, te)" by (cases f)
  from Cons.prems(1)[unfolded f] obtain c p preds' where
    fit: "fit_fold est nj clf X y tr = (c, None)"
    and pr: "clf_predict est c (map (\<lambda>i. X ! i) te) = Inr p"
    and pt: "put_rows cast preds te p = Inr preds'"
    and rest: "skf_loop est cast nj X y c preds' fs = Inr out"
    by (rule skf_loop_step) blast
  have lp: "length p = length te" using pr Cons.prems(2) by fastforce
  have dte: "distinct te" and drest: "distinct (concat (map snd fs))"
    and disj: "set te \<inter> set (concat (map snd fs)) = {}"
    using Cons.prems(3) f by auto
  note IH = Cons.IH[OF rest Cons.prems(2) drest]
  note P = put_rows_Inr[OF pt lp]
  have len: "length out = length preds" using IH P(1) by simp
  have other: "\<forall>i. i \<notin> set (concat (map snd (f # fs))) \<longrightarrow> out ! i = preds ! i"
    using IH P(2) f by auto
  from IH obtain cs where cs: "length cs = Suc (length fs)" "cs ! 0 = c"
    and all: "\<forall>j < length fs.
              fitted est nj (map (\<lambda>i. X ! i) (fst (fs ! j))) (map (\<lambda>i. y ! i) (fst (fs ! j)))
                 (cs ! j) (cs ! Suc j) \<and>
              (\<forall>pos < length (snd (fs ! j)).
                 \<exists>p v. clf_predict est (cs ! Suc j) (map (\<lambda>i. X ! i) (snd (fs ! j))) = Inr p \<and>
                       cast (p ! pos) = Inr v \<and> out ! (snd (fs ! j) ! pos) = Some v)"
    by blast
  have ft: "fitted est nj (map (\<lambda>i. X ! i) tr) (map (\<lambda>i. y ! i) tr) clf c"
    using fit_fold_returns[OF fit] by simp
  have first: "\<exists>p v. clf_predict est c (map (\<lambda>i. X ! i) te) = Inr p \<and>
                       cast (p ! pos) = Inr v \<and> out ! (te ! pos) = Some v"
    if pos: "pos < length te" for pos
  proof -
    have "te ! pos \<in> set te" using pos by simp
    then have "te ! pos \<notin> set (concat (map snd fs))" using disj by blast
    then have o: "out ! (te ! pos) = preds' ! (te ! pos)" using IH by blast
    from P(3)[OF dte pos] obtain u where "cast (p ! pos) = Inr u" "preds' ! (te ! pos) = Some u"
      by blast
    then show ?thesis using o pr by simp
  qed
  have "\<forall>j < length (f # fs).
              fitted est nj (map (\<lambda>i. X ! i) (fst ((f # fs) ! j))) (map (\<lambda>i. y ! i) (fst ((f # fs) ! j)))
                 ((clf # cs) ! j) ((clf # cs) ! Suc j) \<and>
              (\<forall>pos < length (snd ((f # fs) ! j)).
                 \<exists>p v. clf_predict est ((clf # cs) ! Suc j) (map (\<lambda>i. X ! i) (snd ((f # fs) ! j))) = Inr p \<and>
                       cast (p ! pos) = Inr v \<and> out ! (snd ((f # fs) ! j) ! pos) = Some v)"
  proof (intro allI impI)
    fix j assume j: "j < length (f # fs)"
    show "fitted est nj (map (\<lambda>i. X ! i) (fst ((f # fs) ! j))) (map (\<lambda>i. y ! i) (fst ((f # fs) ! j)))
                 ((clf # cs) ! j) ((clf # cs) ! Suc j) \<and>
              (\<forall>pos < length (snd ((f # fs) ! j)).
                 \<exists>p v. clf_predict est ((clf # cs) ! Suc j) (map (\<lambda>i. X ! i) (snd ((f # fs) ! j))) = Inr p \<and>
                       cast (p ! pos) = Inr v \<and> out ! (snd ((f # fs) ! j) ! pos) = Some v)"
    proof (cases j)
      case 0
      then show ?thesis using f ft first cs by simp
    next
      case (Suc m)
      then show ?thesis using all j by simp
    qed
  qed
  then have "\<exists>cs'. length cs' = Suc (length (f # fs)) \<and> cs' ! 0 = clf \<and>
           (\<forall>j < length (f # fs).
              fitted est nj (map (\<lambda>i. X ! i) (fst ((f # fs) ! j))) (map (\<lambda>i. y ! i) (fst ((f # fs) ! j)))
                 (cs' ! j) (cs' ! Suc j) \<and>
              (\<forall>pos < length (snd ((f # fs) ! j)).
                 \<exists>p v. clf_predict est (cs' ! Suc j) (map (\<lambda>i. X ! i) (snd ((f # fs) ! j))) = Inr p \<and>
                       cast (p ! pos) = Inr v \<and> out ! (snd ((f # fs) ! j) ! pos) = Some v))"
    using cs by (intro exI[of _ "clf # cs"]) simp
  then show ?case using len other by blast
qed

lemma count_list_upt: "count_list [0..<n] i = (if i < n then 1 else 0)"
  by (induction n) auto

lemma partition_facts:
  assumes "mset (concat (map snd fs)) = mset [0..<n]" and "i < n"
  shows "distinct (concat (map snd fs))"
    and "count_list (concat (map snd fs)) i = 1"
    and "\<exists>j < length fs. \<exists>pos < length (snd (fs ! j)). snd (fs ! j) ! pos = i"
proof -
  show d: "distinct (concat (map snd fs))"
    using assms(1) by (metis distinct_upt mset_eq_imp_distinct_iff)
  have s: "set (concat (map snd fs)) = {0..<n}"
    using assms(1) by (metis mset_eq_setD set_upt)
  have "count_list (concat (map snd fs)) i = count_list [0..<n] i"
    using assms(1) by (metis count_mset)
  then show "count_list (concat (map snd fs)) i = 1"
    using assms(2) by (simp add: count_list_upt)
  have "i \<in> set (concat (map snd fs))" using s assms(2) by simp
  then obtain f where f: "f \<in> set fs" "i \<in> set (snd f)" by auto
  then obtain j pos where "j < length fs" "fs ! j = f" "pos < length (snd f)" "snd f ! pos = i"
    by (metis in_set_conv_nth)
  then show "\<exists>j < length fs. \<exists>pos < length (snd (fs ! j)). snd (fs ! j) ! pos = i" by blast
qed

lemmas toy_defs = toy_split_def toy_est_def toy_X_def toy_y_def toy_method_def toy_accuracy_def
  toy_search_def gridsearch_init_def toy_cast_def

lemmas run_defs = gridsearch_fit_def gridsearch_train_test_split_def
  ParameterGrid_def Parallel_def gridsearch_eval_def construct_def
  fit_attempt_def take_rows_def np_mean_def np_std_def np_argmax_def Let_def

text \<open>
  Claim C6. For each fold the predictor first calls \<open>fit\<close> with the \<open>n_jobs\<close> keyword, on the
  rows and labels at the training positions. When that call returns, the fold goes on with
  the object it leaves and \<open>fit\<close> is not called again; when it raises, whatever the exception,
  \<open>fit\<close> is called without the keyword on the object the first call left, and the outcome of
  the fold is the outcome of that second call. So a run that returns predictions has, fold
  after fold, fitted the object in this way and predicted with it; a fold whose two calls
  both raise ends the run with the exception of the second call; and the exception of the
  first call never reaches the caller: replacing every exception of the hinted \<open>fit\<close> by an
  arbitrary other one, \<open>e0\<close>, changes nothing in what the predictor returns.
\<close>

theorem fit_retry_masks_first_exception:
  "((\<forall>i \<in> set train_index. i < length X \<and> i < length y) \<longrightarrow>
      fit_fold est nj clf X y train_index =
        (case clf_fit_n_jobs est clf (map (\<lambda>i. X ! i) train_index) (map (\<lambda>i. y ! i) train_index) nj of
           (c1, None) \<Rightarrow> (c1, None)
         | (c1, Some e) \<Rightarrow>
             clf_fit est c1 (map (\<lambda>i. X ! i) train_index) (map (\<lambda>i. y ! i) train_index)))
   \<and> (\<forall>fs w' preds.
        split k None False X y w = (Inr fs, w') \<and>
        StratifiedKFoldTestPredictions split est cast X y clf k nj w = (Inr preds, w') \<longrightarrow>
        (\<exists>cs. length cs = Suc (length fs) \<and> cs ! 0 = clf \<and>
           (\<forall>j < length fs.
              fitted est nj (map (\<lambda>i. X ! i) (fst (fs ! j))) (map (\<lambda>i. y ! i) (fst (fs ! j)))
                 (cs ! j) (cs ! Suc j) \<and>
              (\<exists>p. clf_predict est (cs ! Suc j) (map (\<lambda>i. X ! i) (snd (fs ! j))) = Inr p))))
   \<and> (\<forall>tr te rest w' c1 e1 c2 e2.
        split k None False X y w = (Inr ((tr, te) # rest), w') \<and>
        (\<forall>i \<in> set tr. i < length X \<and> i < length y) \<and>
        clf_fit_n_jobs est clf (map (\<lambda>i. X ! i) tr) (map (\<lambda>i. y ! i) tr) nj = (c1, Some e1) \<and>
        clf_fit est c1 (map (\<lambda>i. X ! i) tr) (map (\<lambda>i. y ! i) tr) = (c2, Some e2) \<longrightarrow>
        StratifiedKFoldTestPredictions split est cast X y clf k nj w = (Inl e2, w'))
   \<and> StratifiedKFoldTestPredictions split (mask_hint_errors e0 est) cast X y clf k nj w =
       StratifiedKFoldTestPredictions split est cast X y clf k nj w"
proof (intro conjI allI impI)
  assume "\<forall>i \<in> set train_index. i < length X \<and> i < length y"
  then show "fit_fold est nj clf X y train_index =
        (case clf_fit_n_jobs est clf (map (\<lambda>i. X ! i) train_index) (map (\<lambda>i. y ! i) train_index) nj of
           (c1, None) \<Rightarrow> (c1, None)
         | (c1, Some e) \<Rightarrow>
             clf_fit est c1 (map (\<lambda>i. X ! i) train_index) (map (\<lambda>i. y ! i) train_index))"
    by (rule fit_fold_in_range)
next
  fix fs w' preds
  assume a: "split k None False X y w = (Inr fs, w') \<and>
        StratifiedKFoldTestPredictions split est cast X y clf k nj w = (Inr preds, w')"
  then have "skf_loop est cast nj X y clf (replicate (length y) None) fs = Inr preds"
    by (auto simp: StratifiedKFoldTestPredictions_def)
  then show "\<exists>cs. length cs = Suc (length fs) \<and> cs ! 0 = clf \<and>
           (\<forall>j < length fs.
              fitted est nj (map (\<lambda>i. X ! i) (fst (fs ! j))) (map (\<lambda>i. y ! i) (fst (fs ! j)))
                 (cs ! j) (cs ! Suc j) \<and>
              (\<exists>p. clf_predict est (cs ! Suc j) (map (\<lambda>i. X ! i) (snd (fs ! j))) = Inr p))"
    by (rule skf_loop_fits)
next
  fix tr te rest w' c1 e1 c2 e2
  assume a: "split k None False X y w = (Inr ((tr, te) # rest), w') \<and>
        (\<forall>i \<in> set tr. i < length X \<and> i < length y) \<and>
        clf_fit_n_jobs est clf (map (\<lambda>i. X ! i) tr) (map (\<lambda>i. y ! i) tr) nj = (c1, Some e1) \<and>
        clf_fit est c1 (map (\<lambda>i. X ! i) tr) (map (\<lambda>i. y ! i) tr) = (c2, Some e2)"
  then have r: "\<forall>i \<in> set tr. i < length X \<and> i < length y" by blast
  have "fit_fold est nj clf X y tr = (c2, Some e2)"
    using a by (simp add: fit_fold_in_range[OF r])
  then show "StratifiedKFoldTestPredictions split est cast X y clf k nj w = (Inl e2, w')"
    using a by (auto simp: StratifiedKFoldTestPredictions_def)
next
  show "StratifiedKFoldTestPredictions split (mask_hint_errors e0 est) cast X y clf k nj w =
       StratifiedKFoldTestPredictions split est cast X y clf k nj w"
    by (simp add: StratifiedKFoldTestPredictions_def skf_loop_mask split: prod.splits sum.splits)
qed

lemma toy_run:
  "StratifiedKFoldTestPredictions toy_split toy_est toy_cast toy_X toy_y (0, None) 2 (- 1) 0
     = (Inr [Some 0, Some 0, Some 1, Some 1], 1)"
  by (simp add: StratifiedKFoldTestPredictions_def toy_defs fit_fold_def fit_attempt_def
      take_rows_def put_rows_def)

theorem fit_retry_masks_first_exception_witness:
  "clf_fit_n_jobs toy_est (0, None) [2, 9] [0, 1] (- 1) = ((0, None), Some TypeError) \<and>
   clf_fit toy_est (0, None) [2, 9] [0, 1] = ((0, Some 5), None) \<and>
   fit_fold toy_est (- 1) (0, None) toy_X toy_y [1, 3] = ((0, Some 5), None) \<and>
   clf_fit_n_jobs toy_hint_est (0, None) [2, 9] [0, 1] (- 1) = ((0, Some 2), None) \<and>
   fit_fold toy_hint_est (- 1) (0, None) toy_X toy_y [1, 3] = ((0, Some 2), None) \<and>
   toy_split 2 None False toy_X toy_y 0 = (Inr [([1, 3], [0, 2]), ([0, 2], [1, 3])], 1) \<and>
   clf_fit toy_est (101, None) [2, 9] [0, 1] = ((101, None), Some (Raised ''bias too large'')) \<and>
   StratifiedKFoldTestPredictions toy_split toy_est toy_cast toy_X toy_y (101, None) 2 (- 1) 0
     = (Inl (Raised ''bias too large''), 1) \<and>
   StratifiedKFoldTestPredictions toy_split (mask_hint_errors (Raised ''KeyboardInterrupt'') toy_est)
       toy_cast toy_X toy_y (0, None) 2 (- 1) 0 = (Inr [Some 0, Some 0, Some 1, Some 1], 1)"
proof -
  have h: "clf_fit_n_jobs toy_est (0, None) [2, 9] [0, 1] (- 1) = ((0, None), Some TypeError)"
    by (simp add: toy_defs)
  have r: "clf_fit toy_est (0, None) [2, 9] [0, 1] = ((0, Some 5), None)"
    by (simp add: toy_defs)
  have s: "toy_split 2 None False toy_X toy_y 0 = (Inr [([1, 3], [0, 2]), ([0, 2], [1, 3])], 1)"
    by (simp add: toy_defs)
  have m: "map (\<lambda>i. toy_X ! i) [1, 3] = [2, 9]" "map (\<lambda>i. toy_y ! i) [1, 3] = [0, 1]"
    by (simp_all add: toy_defs)
  have rg: "\<forall>i \<in> set [1, 3 :: nat]. i < length toy_X \<and> i < length toy_y"
    by (simp add: toy_defs)
  have g: "clf_fit_n_jobs toy_hint_est (0, None) [2, 9] [0, 1] (- 1) = ((0, Some 2), None)"
    by (simp add: toy_hint_est_def)
  have r2: "clf_fit toy_est (101, None) [2, 9] [0, 1] = ((101, None), Some (Raised ''bias too large''))"
    by (simp add: toy_defs)
  note T = fit_retry_masks_first_exception[of "[1, 3]" toy_X toy_y toy_est "- 1" "(0, None)"
      toy_split 2 0 toy_cast "Raised ''KeyboardInterrupt''"]
  note U = fit_retry_masks_first_exception[of "[1, 3]" toy_X toy_y toy_est "- 1" "(101, None)"
      toy_split 2 0 toy_cast "Raised ''KeyboardInterrupt''"]
  have a: "fit_fold toy_est (- 1) (0, None) toy_X toy_y [1, 3] = ((0, Some 5), None)"
    by (rule T[THEN conjunct1, THEN mp, OF rg, unfolded m h prod.case option.case r])
  note V = fit_retry_masks_first_exception[of "[1, 3]" toy_X toy_y toy_hint_est "- 1" "(0, None)"
      toy_split 2 0 toy_cast "Raised ''KeyboardInterrupt''"]
  have a': "fit_fold toy_hint_est (- 1) (0, None) toy_X toy_y [1, 3] = ((0, Some 2), None)"
    by (rule V[THEN conjunct1, THEN mp, OF rg, unfolded m g prod.case option.case])
  have b: "StratifiedKFoldTestPredictions toy_split toy_est toy_cast toy_X toy_y (101, None) 2 (- 1) 0
     = (Inl (Raised ''bias too large''), 1)"
    by (rule U[THEN conjunct2, THEN conjunct2, THEN conjunct1, rule_format,
          of "[1, 3]" "[0, 2]" "[([0, 2], [1, 3])]" 1 "(101, None)" TypeError "(101, None)"
             "Raised ''bias too large''"])
       (simp add: toy_defs)
  have c: "StratifiedKFoldTestPredictions toy_split (mask_hint_errors (Raised ''KeyboardInterrupt'') toy_est)
       toy_cast toy_X toy_y (0, None) 2 (- 1) 0 = (Inr [Some 0, Some 0, Some 1, Some 1], 1)"
    using T[THEN conjunct2, THEN conjunct2, THEN conjunct2] by (simp add: toy_run)
  show ?thesis using h r a g a' s r2 b c by (intro conjI)
qed

text \<open>
  Claim C5, as the code has it. When the predictor returns and the test index lists of the
  folds partition the positions \<open>0, \<dots>, length y - 1\<close> (each position in exactly one list,
  once), the training and test lists of a fold being disjoint and \<open>predict\<close> giving one
  prediction per row, the returned array is aligned with the labels: it has their length,
  every position \<open>i\<close> is written exactly once, and its entry is the prediction for sample
  \<open>i\<close>, converted to the dtype of the labels, made by the estimator object as the fits of
  the folds up to the one holding \<open>i\<close> left it, the last of them on a training list that
  excludes \<open>i\<close>. The object is the same from fold to fold: \<open>cs ! j\<close> is its state before
  fold \<open>j\<close>.
\<close>

theorem out_of_fold_predictions_aligned:
  assumes run: "StratifiedKFoldTestPredictions split est cast X y clf k nj w = (Inr preds, w')"
    and fs: "fst (split k None False X y w) = Inr fs"
    and part: "mset (concat (map snd fs)) = mset [0..<length y]"
    and disj: "\<forall>(train_index, test_index) \<in> set fs. set train_index \<inter> set test_index = {}"
    and plen: "\<forall>c Xs p. clf_predict est c Xs = Inr p \<longrightarrow> length p = length Xs"
  shows "length preds = length y \<and>
         (\<exists>cs. length cs = Suc (length fs) \<and> cs ! 0 = clf \<and>
            (\<forall>j < length fs.
               fitted est nj (map (\<lambda>i. X ! i) (fst (fs ! j))) (map (\<lambda>i. y ! i) (fst (fs ! j)))
                  (cs ! j) (cs ! Suc j)) \<and>
            (\<forall>i < length y.
               count_list (concat (map snd fs)) i = 1 \<and>
               (\<exists>j < length fs. \<exists>pos < length (snd (fs ! j)).
                  snd (fs ! j) ! pos = i \<and> i \<notin> set (fst (fs ! j)) \<and>
                  (\<exists>p v. clf_predict est (cs ! Suc j) (map (\<lambda>i. X ! i) (snd (fs ! j))) = Inr p
                     \<and> cast (p ! pos) = Inr v \<and> preds ! i = Some v))))"
proof -
  have loop: "skf_loop est cast nj X y clf (replicate (length y) None) fs = Inr preds"
    using run fs by (auto simp: StratifiedKFoldTestPredictions_def split: prod.splits sum.splits)
  have d: "distinct (concat (map snd fs))"
    using part by (metis distinct_upt mset_eq_imp_distinct_iff)
  note R = skf_loop_result[OF loop plen d]
  have len: "length preds = length y" using R by simp
  from R obtain cs where cs: "length cs = Suc (length fs)" "cs ! 0 = clf"
    and all: "\<forall>j < length fs.
              fitted est nj (map (\<lambda>i. X ! i) (fst (fs ! j))) (map (\<lambda>i. y ! i) (fst (fs ! j)))
                 (cs ! j) (cs ! Suc j) \<and>
              (\<forall>pos < length (snd (fs ! j)).
                 \<exists>p v. clf_predict est (cs ! Suc j) (map (\<lambda>i. X ! i) (snd (fs ! j))) = Inr p \<and>
                       cast (p ! pos) = Inr v \<and> preds ! (snd (fs ! j) ! pos) = Some v)"
    by blast
  have each: "count_list (concat (map snd fs)) i = 1 \<and>
               (\<exists>j < length fs. \<exists>pos < length (snd (fs ! j)).
                  snd (fs ! j) ! pos = i \<and> i \<notin> set (fst (fs ! j)) \<and>
                  (\<exists>p v. clf_predict est (cs ! Suc j) (map (\<lambda>i. X ! i) (snd (fs ! j))) = Inr p
                     \<and> cast (p ! pos) = Inr v \<and> preds ! i = Some v))" if i: "i < length y" for i
  proof -
    from partition_facts(3)[OF part i] obtain j pos where
      j: "j < length fs" and pos: "pos < length (snd (fs ! j))" and at: "snd (fs ! j) ! pos = i"
      by blast
    have "fs ! j \<in> set fs" using j by simp
    then have "set (fst (fs ! j)) \<inter> set (snd (fs ! j)) = {}"
      using disj by (auto split: prod.splits)
    moreover have "i \<in> set (snd (fs ! j))" using pos at by auto
    ultimately have notin: "i \<notin> set (fst (fs ! j))" by blast
    from all j pos obtain p v where
      "clf_predict est (cs ! Suc j) (map (\<lambda>i. X ! i) (snd (fs ! j))) = Inr p"
      "cast (p ! pos) = Inr v"
      "preds ! (snd (fs ! j) ! pos) = Some v" by blast
    then show ?thesis using partition_facts(2)[OF part i] j pos at notin by blast
  qed
  have "\<forall>j < length fs.
               fitted est nj (map (\<lambda>i. X ! i) (fst (fs ! j))) (map (\<lambda>i. y ! i) (fst (fs ! j)))
                  (cs ! j) (cs ! Suc j)" using all by blast
  then show ?thesis using len cs each by blast
qed

theorem out_of_fold_predictions_aligned_witness:
  "StratifiedKFoldTestPredictions toy_split toy_est toy_cast toy_X toy_y (0, None) 2 (- 1) 0
     = (Inr [Some 0, Some 0, Some 1, Some 1], 1) \<and>
   fst (toy_split 2 None False toy_X toy_y 0) = Inr [([1, 3], [0, 2]), ([0, 2], [1, 3])] \<and>
   mset (concat (map snd ([([1, 3], [0, 2]), ([0, 2], [1, 3])] :: folds))) = mset [0..<length toy_y] \<and>
   length [Some 0, Some 0, Some 1, Some (1 :: nat)] = length toy_y"
proof -
  let ?fs = "([([1, 3], [0, 2]), ([0, 2], [1, 3])] :: folds)"
  have fs: "fst (toy_split 2 None False toy_X toy_y 0) = Inr ?fs"
    by (simp add: toy_defs)
  have "[0..<length toy_y] = [0, 1, 2, 3]" by (simp add: toy_y_def upt_conv_Cons)
  then have part: "mset (concat (map snd ?fs)) = mset [0..<length toy_y]" by simp
  have disj: "\<forall>(train_index, test_index) \<in> set ?fs. set train_index \<inter> set test_index = {}"
    by simp
  have plen: "\<forall>c Xs p. clf_predict toy_est c Xs = Inr p \<longrightarrow> length p = length Xs"
    by (auto simp: toy_est_def split: option.splits)
  note T = out_of_fold_predictions_aligned[OF toy_run fs part disj plen]
  have a: "length [Some 0, Some 0, Some 1, Some (1 :: nat)] = length toy_y"
    by (rule T[THEN conjunct1])
  show ?thesis using toy_run fs part a by (intro conjI)
qed

text \<open>
  Claim C5 as the specification words it fails: the entry of the returned array is not the
  prediction itself. The array has the dtype of the labels, and a prediction is converted
  when it is stored. With integer labels and an estimator that predicts the score \<open>x / 10\<close>
  for the row \<open>x\<close>, the prediction for sample 2 (the row 8) is 0.8 and the entry at
  position 2 is 0.
\<close>

theorem out_of_fold_predictions_converted_counterexample:
  "StratifiedKFoldTestPredictions toy_split toy_score_est toy_truncate toy_X toy_y_int False 2 (- 1) 0
     = (Inr [Some 0, Some 0, Some 0, Some 0], 1) \<and>
   fit_fold toy_score_est (- 1) False toy_X toy_y_int [1, 3] = (True, None) \<and>
   clf_predict toy_score_est True (map (\<lambda>i. toy_X ! i) [0, 2]) = Inr [1 / 10, 8 / 10] \<and>
   real_of_int 0 \<noteq> 8 / 10"
  by (simp add: StratifiedKFoldTestPredictions_def toy_split_def toy_score_est_def toy_truncate_def
      toy_X_def toy_y_int_def fit_fold_def fit_attempt_def take_rows_def put_rows_def)

lemma run_jobs_Inr:
  "run_jobs job order = Inr c \<longleftrightarrow> map job order = map Inr (map snd c) \<and> map fst c = order"
proof (induction order arbitrary: c)
  case Nil
  then show ?case by auto
next
  case (Cons i order)
  show ?case
  proof (cases "job i")
    case (Inl e)
    then show ?thesis by (cases c) auto
  next
    case (Inr r)
    show ?thesis
    proof (cases "run_jobs job order")
      case (Inl e)
      then have "\<not> (\<exists>c'. map job order = map Inr (map snd c') \<and> map fst c' = order)"
        using Cons.IH by auto
      then show ?thesis using Inl Inr by (cases c) auto
    next
      case (Inr c')
      then show ?thesis using \<open>job i = Inr r\<close> Cons.IH[of c'] Cons.IH[of "tl c"]
        by (cases c) auto
    qed
  qed
qed

lemma run_jobs_Inl: "run_jobs job order = Inl e \<Longrightarrow> \<exists>i \<in> set order. job i = Inl e"
  by (induction order) (auto split: sum.splits)

lemma run_jobs_fails: "i \<in> set order \<Longrightarrow> isl (job i) \<Longrightarrow> isl (run_jobs job order)"
  by (induction order) (auto split: sum.splits)

lemma reorder_completed:
  assumes "mset (map fst c) = mset [0..<n]"
  shows "map fst (sort_key fst c) = [0..<n]"
proof -
  have m: "mset (map fst (sort_key fst c)) = mset [0..<n]"
    using assms by simp
  have "sorted (map fst (sort_key fst c))" by (rule sorted_sort_key)
  moreover have "distinct (map fst (sort_key fst c))"
    using m by (metis distinct_upt mset_eq_imp_distinct_iff)
  moreover have "set (map fst (sort_key fst c)) = set [0..<n]"
    using m by (rule mset_eq_setD)
  ultimately show ?thesis
    by (metis sorted_distinct_set_unique sorted_upt distinct_upt)
qed

lemma Parallel_Inr:
  "Parallel finish f args = Inr rs \<longleftrightarrow> map f args = map Inr rs"
proof -
  let ?job = "\<lambda>i. f (args ! i)"
  let ?order = "sort_key finish [0..<length args]"
  have args: "map f args = map ?job [0..<length args]"
    by (simp add: map_nth flip: map_map[of f "(!) args", unfolded comp_def])
  show ?thesis
  proof
    assume "Parallel finish f args = Inr rs"
    then obtain c where c: "run_jobs ?job ?order = Inr c" and rs: "rs = map snd (sort_key fst c)"
      by (auto simp: Parallel_def split: sum.splits)
    from c have ok: "map ?job ?order = map Inr (map snd c)" and fc: "map fst c = ?order"
      by (simp_all add: run_jobs_Inr)
    have each: "\<forall>p \<in> set c. ?job (fst p) = Inr (snd p)"
    proof
      fix p assume "p \<in> set c"
      then obtain m where m: "m < length c" "c ! m = p" by (metis in_set_conv_nth)
      have len: "length ?order = length c" using fc by (metis length_map)
      have "map ?job ?order ! m = map Inr (map snd c) ! m" using ok by simp
      moreover have "?order ! m = fst p" using fc m by (metis nth_map)
      ultimately show "?job (fst p) = Inr (snd p)" using m len by simp
    qed
    have perm: "mset (map fst c) = mset [0..<length args]" using fc by simp
    have idx: "map fst (sort_key fst c) = [0..<length args]" by (rule reorder_completed[OF perm])
    have "map ?job (map fst (sort_key fst c)) = map Inr (map snd (sort_key fst c))"
      using each by (auto simp: )
    then show "map f args = map Inr rs" using idx rs args by simp
  next
    assume a: "map f args = map Inr rs"
    have len: "length rs = length args" using a by (metis length_map)
    let ?c = "map (\<lambda>i. (i, rs ! i)) ?order"
    have jobv: "?job i = Inr (rs ! i)" if "i < length args" for i
      using a that len by (metis nth_map)
    have "map ?job ?order = map Inr (map snd ?c) \<and> map fst ?c = ?order"
      using jobv by (auto simp: comp_def)
    then have c: "run_jobs ?job ?order = Inr ?c" by (simp add: run_jobs_Inr)
    have perm: "mset (map fst ?c) = mset [0..<length args]" by (simp add: comp_def)
    have idx: "map fst (sort_key fst ?c) = [0..<length args]" by (rule reorder_completed[OF perm])
    have each: "\<forall>p \<in> set (sort_key fst ?c). snd p = rs ! fst p" by auto
    have "map snd (sort_key fst ?c) = map (\<lambda>i. rs ! i) (map fst (sort_key fst ?c))"
      using each by auto
    also have "\<dots> = rs" using idx len map_nth[of rs] by simp
    finally show "Parallel finish f args = Inr rs" using c by (simp add: Parallel_def)
  qed
qed

lemma Parallel_Inl:
  "Parallel finish f args = Inl e \<Longrightarrow> \<exists>a \<in> set args. f a = Inl e"
proof -
  assume "Parallel finish f args = Inl e"
  then have "run_jobs (\<lambda>i. f (args ! i)) (sort_key finish [0..<length args]) = Inl e"
    by (auto simp: Parallel_def split: sum.splits)
  then obtain i where "i \<in> set (sort_key finish [0..<length args])" "f (args ! i) = Inl e"
    by (auto dest: run_jobs_Inl)
  then show ?thesis by auto
qed

lemma Parallel_fails:
  assumes "a \<in> set args" "isl (f a)"
  shows "\<exists>e. Parallel finish f args = Inl e"
proof -
  obtain i where i: "i < length args" "args ! i = a" using assms(1) by (metis in_set_conv_nth)
  then have "i \<in> set (sort_key finish [0..<length args])" by simp
  then have "isl (run_jobs (\<lambda>i. f (args ! i)) (sort_key finish [0..<length args]))"
    using assms(2) i by (intro run_jobs_fails[of i]) auto
  then show ?thesis by (auto simp: Parallel_def isl_def)
qed

lemma np_le_refl: "a \<noteq> NaN \<Longrightarrow> np_le a a"
  by (cases a) auto

lemma np_le_trans: "np_le a b \<Longrightarrow> np_le b c \<Longrightarrow> np_le a c"
  by (cases a; cases b; cases c) auto

lemma np_le_less_trans: "np_le a b \<Longrightarrow> np_less b c \<Longrightarrow> np_less a c"
  by (cases a; cases b; cases c) auto

lemma np_less_le_trans: "np_less a b \<Longrightarrow> np_le b c \<Longrightarrow> np_less a c"
  by (cases a; cases b; cases c) auto

lemma np_less_imp_le: "np_less a b \<Longrightarrow> np_le a b"
  by (cases a; cases b) auto

lemma np_not_le: "a \<noteq> NaN \<Longrightarrow> b \<noteq> NaN \<Longrightarrow> \<not> np_le a b \<Longrightarrow> np_less b a"
  by (cases a; cases b) auto

lemma np_le_NaN [simp]: "\<not> np_le NaN b" "\<not> np_le a NaN"
  by (cases b; simp) (cases a; simp)

text \<open>The scan of \<open>argmax\<close> over numbers: the first occurrence of the maximum.\<close>

lemma argmax_loop_spec:
  assumes "b < length pre" "\<forall>x \<in> set (pre @ xs). x \<noteq> NaN"
    "\<forall>j < length pre. np_le (pre ! j) (pre ! b)" "\<forall>j < b. np_less (pre ! j) (pre ! b)"
  shows "argmax_loop xs (length pre) b (pre ! b) < length (pre @ xs) \<and>
         (\<forall>j < length (pre @ xs). np_le ((pre @ xs) ! j) ((pre @ xs) ! argmax_loop xs (length pre) b (pre ! b))) \<and>
         (\<forall>j < argmax_loop xs (length pre) b (pre ! b). np_less ((pre @ xs) ! j) ((pre @ xs) ! argmax_loop xs (length pre) b (pre ! b)))"
  using assms
proof (induction xs arbitrary: pre b)
  case Nil
  then show ?case by simp
next
  case (Cons x xs)
  let ?pre = "pre @ [x]"
  have nb: "pre ! b \<noteq> NaN" using Cons.prems(1,2) by simp
  have nx: "x \<noteq> NaN" using Cons.prems(2) by simp
  have nn: "\<forall>x \<in> set (?pre @ xs). x \<noteq> NaN" using Cons.prems(2) by simp
  show ?case
  proof (cases "np_le x (pre ! b)")
    case False
    then have lt: "np_less (pre ! b) x" using nb nx by (simp add: np_not_le)
    have 1: "length pre < length ?pre" by simp
    have 2: "\<forall>j < length ?pre. np_le (?pre ! j) (?pre ! length pre)"
      using Cons.prems(3) lt nx
      by (auto simp: nth_append less_Suc_eq intro: np_le_trans np_less_imp_le np_le_refl)
    have 3: "\<forall>j < length pre. np_less (?pre ! j) (?pre ! length pre)"
      using Cons.prems(3) lt by (auto simp: nth_append intro: np_le_less_trans)
    from Cons.IH[OF 1 nn 2 3] show ?thesis using False nb by simp
  next
    case True
    have 1: "b < length ?pre" using Cons.prems(1) by simp
    have 2: "\<forall>j < length ?pre. np_le (?pre ! j) (?pre ! b)"
      using Cons.prems True by (auto simp: nth_append less_Suc_eq)
    have 3: "\<forall>j < b. np_less (?pre ! j) (?pre ! b)"
      using Cons.prems by (auto simp: nth_append)
    from Cons.IH[OF 1 nn 2 3] show ?thesis using True nb Cons.prems(1) by (simp add: nth_append)
  qed
qed

text \<open>The scan over a sequence that holds a \<open>nan\<close>: the first \<open>nan\<close>.\<close>

lemma argmax_loop_nan:
  assumes "b < length pre" "pre ! b = NaN \<or> (\<forall>j < length pre. pre ! j \<noteq> NaN)"
    "\<forall>j < b. pre ! j \<noteq> NaN" "NaN \<in> set (pre @ xs)"
  shows "argmax_loop xs (length pre) b (pre ! b) < length (pre @ xs) \<and>
         (pre @ xs) ! argmax_loop xs (length pre) b (pre ! b) = NaN \<and>
         (\<forall>j < argmax_loop xs (length pre) b (pre ! b). (pre @ xs) ! j \<noteq> NaN)"
  using assms
proof (induction xs arbitrary: pre b)
  case Nil
  then have "pre ! b = NaN" by (auto simp: in_set_conv_nth)
  then show ?case using Nil by simp
next
  case (Cons x xs)
  let ?pre = "pre @ [x]"
  show ?case
  proof (cases "pre ! b = NaN")
    case True
    then show ?thesis using Cons.prems by (simp add: nth_append)
  next
    case nb: False
    then have all: "\<forall>j < length pre. pre ! j \<noteq> NaN" using Cons.prems(2) by blast
    have mem: "NaN \<in> set (?pre @ xs)" using Cons.prems(4) by simp
    show ?thesis
    proof (cases "np_le x (pre ! b)")
      case False
      have 1: "length pre < length ?pre" by simp
      have 2: "?pre ! length pre = NaN \<or> (\<forall>j < length ?pre. ?pre ! j \<noteq> NaN)"
        using all by (auto simp: nth_append less_Suc_eq)
      have 3: "\<forall>j < length pre. ?pre ! j \<noteq> NaN" using all by (simp add: nth_append)
      from Cons.IH[OF 1 2 3 mem] show ?thesis using False nb by simp
    next
      case True
      then have nx: "x \<noteq> NaN" by auto
      have 1: "b < length ?pre" using Cons.prems(1) by simp
      have 2: "?pre ! b = NaN \<or> (\<forall>j < length ?pre. ?pre ! j \<noteq> NaN)"
        using all nx by (auto simp: nth_append less_Suc_eq)
      have 3: "\<forall>j < b. ?pre ! j \<noteq> NaN" using Cons.prems(1,3) by (simp add: nth_append)
      from Cons.IH[OF 1 2 3 mem] show ?thesis using True nb Cons.prems(1) by (simp add: nth_append)
    qed
  qed
qed

lemma np_argmax_spec:
  assumes "np_argmax a = Inr b" and "\<forall>x \<in> set a. x \<noteq> NaN"
  shows "\<forall>j < length a. np_le (a ! j) (a ! b)" and "\<forall>j < b. np_less (a ! j) (a ! b)"
proof -
  from assms obtain x xs where a: "a = x # xs" and b: "b = argmax_loop xs 1 0 x"
    by (auto simp: np_argmax_def split: list.splits)
  have nn: "\<forall>z \<in> set ([x] @ xs). z \<noteq> NaN" using assms(2) a by simp
  have "argmax_loop xs (length [x]) 0 ([x] ! 0) < length ([x] @ xs) \<and>
         (\<forall>j < length ([x] @ xs). np_le (([x] @ xs) ! j) (([x] @ xs) ! argmax_loop xs (length [x]) 0 ([x] ! 0))) \<and>
         (\<forall>j < argmax_loop xs (length [x]) 0 ([x] ! 0). np_less (([x] @ xs) ! j) (([x] @ xs) ! argmax_loop xs (length [x]) 0 ([x] ! 0)))"
    using nn by (intro argmax_loop_spec) (auto intro: np_le_refl)
  then show "\<forall>j < length a. np_le (a ! j) (a ! b)" and "\<forall>j < b. np_less (a ! j) (a ! b)"
    using a b by simp_all
qed

lemma np_argmax_nan:
  assumes "np_argmax a = Inr b" and "NaN \<in> set a"
  shows "a ! b = NaN" and "\<forall>j < b. a ! j \<noteq> NaN"
proof -
  from assms obtain x xs where a: "a = x # xs" and b: "b = argmax_loop xs 1 0 x"
    by (auto simp: np_argmax_def split: list.splits)
  have mem: "NaN \<in> set ([x] @ xs)" using assms(2) a by simp
  have "argmax_loop xs (length [x]) 0 ([x] ! 0) < length ([x] @ xs) \<and>
         ([x] @ xs) ! argmax_loop xs (length [x]) 0 ([x] ! 0) = NaN \<and>
         (\<forall>j < argmax_loop xs (length [x]) 0 ([x] ! 0). ([x] @ xs) ! j \<noteq> NaN)"
    using mem by (intro argmax_loop_nan) auto
  then show "a ! b = NaN" and "\<forall>j < b. a ! j \<noteq> NaN"
    using a b by simp_all
qed

lemma argmax_loop_bound:
  "b < i \<Longrightarrow> argmax_loop xs i b best < i + length xs"
proof (induction xs arbitrary: i b best)
  case Nil
  then show ?case by simp
next
  case (Cons x xs)
  have "argmax_loop xs (Suc i) i x < Suc i + length xs" by (rule Cons.IH) simp
  moreover have "argmax_loop xs (Suc i) b best < Suc i + length xs"
    using Cons.prems by (intro Cons.IH) simp
  ultimately show ?case using Cons.prems by simp
qed

lemma np_argmax_bound: "np_argmax a = Inr b \<Longrightarrow> b < length a"
  using argmax_loop_bound[of 0 1] by (auto simp: np_argmax_def split: list.splits)

lemma np_argmax_Inl: "np_argmax a = Inl e \<longleftrightarrow> a = [] \<and> e = ValueError"
  by (auto simp: np_argmax_def split: list.splits)

lemma length_grid_product: "length (grid_product g) = prod_list (map (\<lambda>kv. length (snd kv)) g)"
proof (induction g)
  case Nil
  then show ?case by simp
next
  case (Cons a g)
  obtain k vs where a: "a = (k, vs)" by (cases a)
  have "length (concat (map (\<lambda>v. map (\<lambda>ps. (k, v) # ps) (grid_product g)) vs))
          = length vs * length (grid_product g)"
    by (induction vs) auto
  then show ?case using Cons a by simp
qed

lemma prod_list_sort_key:
  "prod_list (map f (sort_key h xs)) = prod_list (map (f :: 'a \<Rightarrow> nat) xs)"
proof -
  have "mset (map f (sort_key h xs)) = mset (map f xs)" by simp
  then show ?thesis by (metis prod_mset_prod_list)
qed

lemma length_ParameterGrid:
  "length (ParameterGrid g) = prod_list (map (\<lambda>kv. length (snd kv)) g)"
  by (simp add: ParameterGrid_def length_grid_product prod_list_sort_key)

lemma set_grid_product:
  "ps \<in> set (grid_product g) \<longleftrightarrow> list_all2 (\<lambda>p kv. fst p = fst kv \<and> snd p \<in> set (snd kv)) ps g"
proof (induction g arbitrary: ps)
  case Nil
  then show ?case by auto
next
  case (Cons a g)
  obtain k vs where a: "a = (k, vs)" by (cases a)
  show ?case using Cons a by (cases ps) (auto simp: image_iff)
qed

lemma distinct_grid_product:
  "\<forall>kv \<in> set g. distinct (snd kv) \<Longrightarrow> distinct (grid_product g)"
proof (induction g)
  case Nil
  then show ?case by simp
next
  case (Cons a g)
  obtain k vs where a: "a = (k, vs)" by (cases a)
  have dg: "distinct (grid_product g)" using Cons by simp
  have dvs: "distinct vs" using Cons.prems a by simp
  have "distinct (concat (map (\<lambda>v. map (\<lambda>ps. (k, v) # ps) (grid_product g)) vs))"
    using dvs
  proof (induction vs)
    case Nil
    then show ?case by simp
  next
    case (Cons v vs)
    have "distinct (map (\<lambda>ps. (k, v) # ps) (grid_product g))"
      using dg by (simp add: distinct_map inj_on_def)
    moreover have "set (map (\<lambda>ps. (k, v) # ps) (grid_product g)) \<inter>
        set (concat (map (\<lambda>v. map (\<lambda>ps. (k, v) # ps) (grid_product g)) vs)) = {}"
      using Cons.prems by auto
    ultimately show ?case using Cons by simp
  qed
  then show ?case using a by simp
qed

lemma distinct_ParameterGrid:
  "\<forall>kv \<in> set g. distinct (snd kv) \<Longrightarrow> distinct (ParameterGrid g)"
  by (simp add: ParameterGrid_def distinct_grid_product)

text \<open>What an evaluation of a candidate that returns has done, in calls of the estimator.\<close>

lemma eval_folds_trace:
  assumes "eval_folds est score X y clf acc fs = Inr out"
  shows "\<exists>scores. out = acc @ scores \<and> evaluated_on est score X y fs clf scores"
  using assms
proof (induction fs arbitrary: clf acc)
  case Nil
  have "evaluated_on est score X y [] clf []"
    unfolding evaluated_on_def by (rule exI[of _ "[clf]"]) simp
  then show ?case using Nil by simp
next
  case (Cons f fs)
  obtain tr te where f: "f = (tr, te)" by (cases f)
  from Cons.prems f obtain c yt Xt p s where
    fit: "fit_attempt est None clf X y tr = (c, None)"
    and ty: "take_rows y te = Inr yt"
    and tx: "take_rows X te = Inr Xt"
    and pr: "clf_predict est c Xt = Inr p"
    and sc: "score yt p = Inr s"
    and rest: "eval_folds est score X y c (acc @ [s]) fs = Inr out"
    by (auto split: prod.splits option.splits sum.splits)
  have rtr: "\<forall>i \<in> set tr. i < length X \<and> i < length y"
    using fit fit_attempt_out_of_range[of tr X y est None clf] by auto
  have fit': "clf_fit est clf (map (\<lambda>i. X ! i) tr) (map (\<lambda>i. y ! i) tr) = (c, None)"
    using fit unfolding fit_attempt_in_range(2)[OF rtr] .
  have yt: "yt = map (\<lambda>i. y ! i) te" and rte1: "\<forall>i \<in> set te. i < length y"
    using ty by (simp_all add: take_rows_Inr)
  have Xt: "Xt = map (\<lambda>i. X ! i) te" and rte2: "\<forall>i \<in> set te. i < length X"
    using tx by (simp_all add: take_rows_Inr)
  from Cons.IH[OF rest] obtain scores where out: "out = (acc @ [s]) @ scores"
    and ev: "evaluated_on est score X y fs c scores" by blast
  from ev obtain cs where cs: "length cs = Suc (length fs)" "cs ! 0 = c"
    "length scores = length fs"
    and all: "\<forall>j < length fs.
           (\<forall>i \<in> set (fst (fs ! j)) \<union> set (snd (fs ! j)). i < length X \<and> i < length y) \<and>
           clf_fit est (cs ! j) (map (\<lambda>i. X ! i) (fst (fs ! j))) (map (\<lambda>i. y ! i) (fst (fs ! j)))
             = (cs ! Suc j, None) \<and>
           (\<exists>p. clf_predict est (cs ! Suc j) (map (\<lambda>i. X ! i) (snd (fs ! j))) = Inr p \<and>
                score (map (\<lambda>i. y ! i) (snd (fs ! j))) p = Inr (scores ! j))"
    unfolding evaluated_on_def by blast
  have "\<forall>j < length (f # fs).
           (\<forall>i \<in> set (fst ((f # fs) ! j)) \<union> set (snd ((f # fs) ! j)). i < length X \<and> i < length y) \<and>
           clf_fit est ((clf # cs) ! j) (map (\<lambda>i. X ! i) (fst ((f # fs) ! j)))
               (map (\<lambda>i. y ! i) (fst ((f # fs) ! j)))
             = ((clf # cs) ! Suc j, None) \<and>
           (\<exists>p. clf_predict est ((clf # cs) ! Suc j) (map (\<lambda>i. X ! i) (snd ((f # fs) ! j))) = Inr p \<and>
                score (map (\<lambda>i. y ! i) (snd ((f # fs) ! j))) p = Inr ((s # scores) ! j))"
  proof (intro allI impI)
    fix j assume j: "j < length (f # fs)"
    show "(\<forall>i \<in> set (fst ((f # fs) ! j)) \<union> set (snd ((f # fs) ! j)). i < length X \<and> i < length y) \<and>
           clf_fit est ((clf # cs) ! j) (map (\<lambda>i. X ! i) (fst ((f # fs) ! j)))
               (map (\<lambda>i. y ! i) (fst ((f # fs) ! j)))
             = ((clf # cs) ! Suc j, None) \<and>
           (\<exists>p. clf_predict est ((clf # cs) ! Suc j) (map (\<lambda>i. X ! i) (snd ((f # fs) ! j))) = Inr p \<and>
                score (map (\<lambda>i. y ! i) (snd ((f # fs) ! j))) p = Inr ((s # scores) ! j))"
    proof (cases j)
      case 0
      then show ?thesis using f rtr rte1 rte2 fit' pr sc cs yt Xt by auto
    next
      case (Suc m)
      then have "m < length fs" using j by simp
      then show ?thesis using all Suc by simp
    qed
  qed
  then have "evaluated_on est score X y (f # fs) clf (s # scores)"
    unfolding evaluated_on_def using cs by (intro exI[of _ "clf # cs"]) simp
  then show ?case using out by simp
qed

lemma eval_folds_length:
  "eval_folds est score X y clf scores fs = Inr out \<Longrightarrow> length out = length scores + length fs"
  by (induction fs arbitrary: clf scores) (auto split: prod.splits option.splits sum.splits)

lemma gridsearch_eval_Inr:
  assumes "gridsearch_eval est self X y p = Inr r"
  shows "fst r = p" and "snd (snd r) = np_mean (fst (snd r))"
    and "k_fold_splits self = Some fs \<Longrightarrow> length (fst (snd r)) = length fs"
  using assms
  by (auto simp: gridsearch_eval_def split: sum.splits option.splits dest: eval_folds_length)

lemma gridsearch_eval_trace:
  assumes "gridsearch_eval est self X y p = Inr r" and "k_fold_splits self = Some fs"
  shows "\<exists>clf scores.
           (case kwargs self of None \<Rightarrow> method self p | Some kw \<Rightarrow> method self (p @ kw)) = Inr clf \<and>
           evaluated_on est (scoring self) X y fs clf scores \<and> r = (p, scores, np_mean scores)"
proof -
  from assms obtain clf scores where c: "construct self p = Inr clf"
    and e: "eval_folds est (scoring self) X y clf [] fs = Inr scores"
    and r: "r = (p, scores, np_mean scores)"
    by (auto simp: gridsearch_eval_def split: sum.splits option.splits)
  have "(case kwargs self of None \<Rightarrow> method self p | Some kw \<Rightarrow> method self (p @ kw)) = Inr clf"
    using c by (auto simp: construct_def split: option.splits if_splits)
  moreover have "evaluated_on est (scoring self) X y fs clf scores"
    using eval_folds_trace[OF e] by simp
  ultimately show ?thesis using r by blast
qed


text \<open>The three ways a call of fit ends, read off the definition.\<close>

lemma fit_split_fails:
  assumes "split (cv self) (random_state self) True X y w = (Inl e, w')"
  shows "gridsearch_fit split est finish self X y w = (Some e, self, w')"
  using assms by (simp add: gridsearch_fit_def gridsearch_train_test_split_def)

lemma fit_eval_fails:
  assumes "split (cv self) (random_state self) True X y w = (Inr fs, w')"
    and "Parallel finish (gridsearch_eval est (self\<lparr>k_fold_splits := Some fs\<rparr>) X y)
           (ParameterGrid (grid_params self)) = Inl e"
  shows "gridsearch_fit split est finish self X y w = (Some e, self\<lparr>k_fold_splits := Some fs\<rparr>, w')"
  using assms by (simp add: gridsearch_fit_def gridsearch_train_test_split_def Let_def)

lemma fit_eval_done:
  assumes "split (cv self) (random_state self) True X y w = (Inr fs, w')"
    and "Parallel finish (gridsearch_eval est (self\<lparr>k_fold_splits := Some fs\<rparr>) X y)
           (ParameterGrid (grid_params self)) = Inr results"
  shows "gridsearch_fit split est finish self X y w =
     (case np_argmax (map (\<lambda>result. snd (snd result)) results) of
        Inl e \<Rightarrow> (Some e, self\<lparr>k_fold_splits := Some fs, scoring_results := Some results\<rparr>, w')
      | Inr b \<Rightarrow>
         (None, self\<lparr>k_fold_splits := Some fs, scoring_results := Some results,
                     best_index := Some b, best_params := Some (fst (results ! b)),
                     best_score := Some (np_mean (fst (snd (results ! b))),
                                          np_std (fst (snd (results ! b))))\<rparr>, w'))"
proof (cases "np_argmax (map (\<lambda>result. snd (snd result)) results)")
  case (Inl e)
  then show ?thesis using assms
    by (simp add: gridsearch_fit_def gridsearch_train_test_split_def Let_def)
next
  case (Inr b)
  then have "b < length results" using np_argmax_bound[OF Inr] by simp
  then show ?thesis using assms Inr
    by (simp add: gridsearch_fit_def gridsearch_train_test_split_def Let_def)
qed


lemma Parallel_results:
  assumes "Parallel finish (gridsearch_eval est self X y) grid = Inr results"
  shows "length results = length grid"
    and "map fst results = grid"
    and "\<forall>i < length results. gridsearch_eval est self X y (grid ! i) = Inr (results ! i)"
proof -
  have m: "map (gridsearch_eval est self X y) grid = map Inr results"
    using assms by (simp add: Parallel_Inr)
  show len: "length results = length grid" using m by (metis length_map)
  show each: "\<forall>i < length results. gridsearch_eval est self X y (grid ! i) = Inr (results ! i)"
    using m len by (metis nth_map)
  show "map fst results = grid"
  proof (rule nth_equalityI)
    show "length (map fst results) = length grid" using len by simp
    fix i assume "i < length (map fst results)"
    then have i: "i < length results" by simp
    then have "gridsearch_eval est self X y (grid ! i) = Inr (results ! i)" using each by simp
    then have "fst (results ! i) = grid ! i" by (rule gridsearch_eval_Inr(1))
    then show "map fst results ! i = grid ! i" using i by simp
  qed
qed

lemma Parallel_total:
  "(\<exists>e. Parallel finish f args = Inl e) \<or> (\<exists>rs. Parallel finish f args = Inr rs)"
  by (cases "Parallel finish f args") auto

lemma Parallel_succeeds:
  assumes "\<forall>a \<in> set args. \<not> isl (f a)"
  shows "\<exists>rs. Parallel finish f args = Inr rs"
proof (cases "Parallel finish f args")
  case (Inl e)
  then obtain a where "a \<in> set args" "f a = Inl e" by (auto dest: Parallel_Inl)
  then show ?thesis using assms by auto
next
  case (Inr rs)
  then show ?thesis by blast
qed

text \<open>
  Claim C1. A call of \<open>fit\<close> calls the splitter exactly once: the state of the splitter's
  library after \<open>fit\<close> is its state after that one call. When the splitter succeeds, the
  partition \<open>fs\<close> it returned is the one stored in the object, and in a search that completes
  every record of the result list comes from that same partition: the \<open>i\<close>-th record holds
  the \<open>i\<close>-th candidate, the scores of the estimator built for that candidate, fitted on
  the training positions of each fold of \<open>fs\<close> and scored on the test positions of the same
  fold, and their mean.
\<close>

theorem fold_partition_computed_once_and_shared:
  assumes "gridsearch_fit split est finish self X y w = (exc, self', w')"
  shows "w' = snd (split (cv self) (random_state self) True X y w) \<and>
    (\<forall>fs. fst (split (cv self) (random_state self) True X y w) = Inr fs \<longrightarrow>
        k_fold_splits self' = Some fs \<and>
        (exc = None \<longrightarrow>
           (\<exists>results. scoring_results self' = Some results \<and>
              length results = length (ParameterGrid (grid_params self)) \<and>
              (\<forall>i < length results. \<exists>clf scores.
                 (case kwargs self of
                    None \<Rightarrow> method self (ParameterGrid (grid_params self) ! i)
                  | Some kw \<Rightarrow> method self (ParameterGrid (grid_params self) ! i @ kw)) = Inr clf \<and>
                 evaluated_on est (scoring self) X y fs clf scores \<and>
                 results ! i = (ParameterGrid (grid_params self) ! i, scores, np_mean scores)))))"
proof (cases "split (cv self) (random_state self) True X y w")
  case (Pair r w1)
  show ?thesis
  proof (cases r)
    case (Inl e)
    then show ?thesis using assms Pair fit_split_fails[of split self X y w e w1 est finish] by simp
  next
    case (Inr fs)
    let ?s1 = "self\<lparr>k_fold_splits := Some fs\<rparr>"
    let ?grid = "ParameterGrid (grid_params self)"
    have sp: "split (cv self) (random_state self) True X y w = (Inr fs, w1)" using Pair Inr by simp
    show ?thesis
    proof (cases "Parallel finish (gridsearch_eval est ?s1 X y) ?grid")
      case (Inl e)
      then show ?thesis using assms fit_eval_fails[where split=split and self=self, OF sp Inl] sp by auto
    next
      case par: (Inr results)
      note R = Parallel_results[OF par]
      have each: "\<forall>i < length results. \<exists>clf scores.
                 (case kwargs self of
                    None \<Rightarrow> method self (?grid ! i)
                  | Some kw \<Rightarrow> method self (?grid ! i @ kw)) = Inr clf \<and>
                 evaluated_on est (scoring self) X y fs clf scores \<and>
                 results ! i = (?grid ! i, scores, np_mean scores)"
      proof (intro allI impI)
        fix i assume "i < length results"
        then have e: "gridsearch_eval est ?s1 X y (?grid ! i) = Inr (results ! i)" using R(3) by simp
        have k: "k_fold_splits ?s1 = Some fs" by simp
        from gridsearch_eval_trace[OF e k]
        show "\<exists>clf scores.
                 (case kwargs self of
                    None \<Rightarrow> method self (?grid ! i)
                  | Some kw \<Rightarrow> method self (?grid ! i @ kw)) = Inr clf \<and>
                 evaluated_on est (scoring self) X y fs clf scores \<and>
                 results ! i = (?grid ! i, scores, np_mean scores)"
          by (simp cong: option.case_cong)
      qed
      have st: "w' = w1 \<and> k_fold_splits self' = Some fs \<and>
                (exc = None \<longrightarrow> scoring_results self' = Some results)"
        using assms fit_eval_done[where split=split and self=self, OF sp par]
        by (auto split: sum.splits)
      show ?thesis using st sp R(1) each by auto
    qed
  qed
qed

theorem fold_partition_computed_once_and_shared_witness:
  "snd (snd (gridsearch_fit toy_split toy_est (\<lambda>i. 2 - i) (toy_search [(''bias'', [7, 0, 1])])
             toy_X toy_y 5)) = 6 \<and>
   snd (toy_split 2 (Some 1234) True toy_X toy_y 5) = 6 \<and>
   k_fold_splits (fst (snd (gridsearch_fit toy_split toy_est (\<lambda>i. 2 - i)
             (toy_search [(''bias'', [7, 0, 1])]) toy_X toy_y 5)))
     = Some [([1, 3], [0, 2]), ([0, 2], [1, 3])] \<and>
   fst (gridsearch_fit toy_split toy_est (\<lambda>i. 2 - i) (toy_search [(''bias'', [7, 0, 1])])
             toy_X toy_y 5) = None \<and>
   evaluated_on toy_est toy_accuracy toy_X toy_y [([1, 3], [0, 2]), ([0, 2], [1, 3])]
     (7, None) [Fin (1 / 2), Fin (1 / 2)]"
proof -
  let ?self = "toy_search [(''bias'', [7, 0, 1])]"
  let ?run = "gridsearch_fit toy_split toy_est (\<lambda>i. 2 - i) ?self toy_X toy_y 5"
  let ?fs = "[([1, 3], [0, 2]), ([0, 2], [1, 3])] :: folds"
  have run: "?run = (fst ?run, fst (snd ?run), snd (snd ?run))" by simp
  have cfg: "cv ?self = 2" "random_state ?self = Some 1234" "kwargs ?self = None"
    "method ?self = toy_method" "scoring ?self = toy_accuracy"
    "grid_params ?self = [(''bias'', [7, 0, 1])]" by (simp_all add: toy_defs)
  have grid: "ParameterGrid [(''bias'', [7, 0, 1 :: nat])] = [[(''bias'', 7)], [(''bias'', 0)], [(''bias'', 1)]]"
    by (simp add: ParameterGrid_def)
  have sp: "toy_split 2 (Some 1234) True toy_X toy_y 5 = (Inr ?fs, 6)"
    by (simp add: toy_defs)
  have ok: "fst ?run = None" by (simp add: run_defs toy_defs)
  have res: "scoring_results (fst (snd ?run)) =
      Some [([(''bias'', 7)], [Fin (1 / 2), Fin (1 / 2)], Fin (1 / 2)),
            ([(''bias'', 0)], [Fin 1, Fin 1], Fin 1), ([(''bias'', 1)], [Fin 1, Fin 1], Fin 1)]"
    by (simp add: run_defs toy_defs)
  note T = fold_partition_computed_once_and_shared[OF run]
  have a: "snd (snd ?run) = 6" using T[THEN conjunct1] cfg sp by simp
  note U = T[THEN conjunct2, rule_format, of ?fs, unfolded cfg sp fst_conv, OF refl]
  have b: "k_fold_splits (fst (snd ?run)) = Some ?fs" by (rule U[THEN conjunct1])
  from U[THEN conjunct2, rule_format, OF ok] obtain results where
    r: "scoring_results (fst (snd ?run)) = Some results"
    and e: "\<forall>i < length results. \<exists>clf scores.
                 (case None of
                    None \<Rightarrow> toy_method (ParameterGrid [(''bias'', [7, 0, 1])] ! i)
                  | Some kw \<Rightarrow> toy_method (ParameterGrid [(''bias'', [7, 0, 1])] ! i @ kw)) = Inr clf \<and>
                 evaluated_on toy_est toy_accuracy toy_X toy_y ?fs clf scores \<and>
                 results ! i = (ParameterGrid [(''bias'', [7, 0, 1])] ! i, scores, np_mean scores)"
    by blast
  have rv: "results = [([(''bias'', 7)], [Fin (1 / 2), Fin (1 / 2)], Fin (1 / 2)),
            ([(''bias'', 0)], [Fin 1, Fin 1], Fin 1), ([(''bias'', 1)], [Fin 1, Fin 1], Fin 1)]"
    using r res by simp
  have "0 < length results" using rv by simp
  with e obtain clf scores where
    A: "toy_method (ParameterGrid [(''bias'', [7, 0, 1])] ! 0) = Inr clf"
    and B: "evaluated_on toy_est toy_accuracy toy_X toy_y ?fs clf scores"
    and C: "results ! 0 = (ParameterGrid [(''bias'', [7, 0, 1])] ! 0, scores, np_mean scores)"
    by fastforce
  have "clf = (7, None)" using A unfolding grid by (simp add: toy_method_def)
  moreover have "scores = [Fin (1 / 2), Fin (1 / 2)]" using C unfolding grid rv by auto
  ultimately have c: "evaluated_on toy_est toy_accuracy toy_X toy_y ?fs (7, None) [Fin (1 / 2), Fin (1 / 2)]"
    using B by simp
  show ?thesis using a sp b ok c by simp
qed

text \<open>
  Claim C2. When the splitter succeeds and every candidate evaluates, the result list has
  exactly \<open>N\<close> records, \<open>N\<close> the product of the lengths of the option lists; the \<open>i\<close>-th
  record is tagged with the \<open>i\<close>-th candidate of the enumeration; the tags are exactly the
  elements of the Cartesian product (one value of each list, names in sorted order), without
  repetition when no option list repeats a value. This holds for every order of completion
  \<open>finish\<close> of the concurrent evaluations.
\<close>

theorem one_record_per_grid_point_in_order:
  assumes "fst (split (cv self) (random_state self) True X y w) = Inr fs"
    and "\<forall>p \<in> set (ParameterGrid (grid_params self)).
           \<not> isl (gridsearch_eval est (self\<lparr>k_fold_splits := Some fs\<rparr>) X y p)"
  shows "\<exists>results.
     scoring_results (fst (snd (gridsearch_fit split est finish self X y w))) = Some results \<and>
     length results = prod_list (map (\<lambda>kv. length (snd kv)) (grid_params self)) \<and>
     map fst results = ParameterGrid (grid_params self) \<and>
     (\<forall>ps. ps \<in> set (map fst results) \<longleftrightarrow>
        list_all2 (\<lambda>p kv. fst p = fst kv \<and> snd p \<in> set (snd kv)) ps (sort_key fst (grid_params self))) \<and>
     ((\<forall>kv \<in> set (grid_params self). distinct (snd kv)) \<longrightarrow> distinct (map fst results))"
proof -
  let ?s1 = "self\<lparr>k_fold_splits := Some fs\<rparr>"
  let ?grid = "ParameterGrid (grid_params self)"
  obtain w1 where sp: "split (cv self) (random_state self) True X y w = (Inr fs, w1)"
    using assms(1) by (cases "split (cv self) (random_state self) True X y w") auto
  obtain results where par: "Parallel finish (gridsearch_eval est ?s1 X y) ?grid = Inr results"
    using Parallel_succeeds[OF assms(2)] by blast
  note R = Parallel_results[OF par]
  have st: "scoring_results (fst (snd (gridsearch_fit split est finish self X y w))) = Some results"
    using fit_eval_done[where split=split and self=self, OF sp par] by (auto split: sum.splits)
  have len: "length results = prod_list (map (\<lambda>kv. length (snd kv)) (grid_params self))"
    using R(1) by (simp add: length_ParameterGrid)
  have mem: "\<forall>ps. ps \<in> set (map fst results) \<longleftrightarrow>
        list_all2 (\<lambda>p kv. fst p = fst kv \<and> snd p \<in> set (snd kv)) ps (sort_key fst (grid_params self))"
    using R(2) by (simp add: ParameterGrid_def set_grid_product)
  have dis: "(\<forall>kv \<in> set (grid_params self). distinct (snd kv)) \<longrightarrow> distinct (map fst results)"
    using R(2) by (simp add: distinct_ParameterGrid)
  show ?thesis using st len R(2) mem dis by blast
qed

theorem one_record_per_grid_point_in_order_witness:
  "fst (toy_split 2 (Some 1234) True toy_X toy_y 0) = Inr [([1, 3], [0, 2]), ([0, 2], [1, 3])] \<and>
   ParameterGrid [(''bias'', [7, 0 :: nat]), (''a'', [3])]
     = [[(''a'', 3), (''bias'', 7)], [(''a'', 3), (''bias'', 0)]] \<and>
   map_option (map fst) (scoring_results (fst (snd (gridsearch_fit toy_split toy_est (\<lambda>i. 1 - i)
        (toy_search [(''bias'', [7, 0]), (''a'', [3])]) toy_X toy_y 0))))
     = Some [[(''a'', 3), (''bias'', 7)], [(''a'', 3), (''bias'', 0)]]"
proof -
  let ?self = "toy_search [(''bias'', [7, 0]), (''a'', [3])]"
  let ?fs = "[([1, 3], [0, 2]), ([0, 2], [1, 3])] :: folds"
  have cfg: "cv ?self = 2" "random_state ?self = Some 1234"
    "grid_params ?self = [(''bias'', [7, 0]), (''a'', [3])]" by (simp_all add: toy_defs)
  have sp: "fst (toy_split (cv ?self) (random_state ?self) True toy_X toy_y 0) = Inr ?fs"
    by (simp add: toy_defs)
  have grid: "ParameterGrid [(''bias'', [7, 0 :: nat]), (''a'', [3])]
     = [[(''a'', 3), (''bias'', 7)], [(''a'', 3), (''bias'', 0)]]"
    by (simp add: ParameterGrid_def)
  have ok: "\<forall>p \<in> set (ParameterGrid (grid_params ?self)).
           \<not> isl (gridsearch_eval toy_est (?self\<lparr>k_fold_splits := Some ?fs\<rparr>) toy_X toy_y p)"
    unfolding cfg grid by (simp add: toy_defs gridsearch_eval_def construct_def fit_attempt_def take_rows_def)
  from one_record_per_grid_point_in_order[where split=toy_split and self="?self"
      and finish="\<lambda>i. 1 - i", OF sp ok]
  obtain results where
    "scoring_results (fst (snd (gridsearch_fit toy_split toy_est (\<lambda>i. 1 - i) ?self toy_X toy_y 0)))
       = Some results"
    "map fst results = ParameterGrid (grid_params ?self)" by blast
  then show ?thesis using sp grid cfg by simp
qed

text \<open>
  Claim C3, as the code has it. After a \<open>fit\<close> that completes, the third component of every
  record is the mean of its fold scores, \<open>best_params\<close> is the parameters of the record at
  \<open>best_index\<close> and \<open>best_score\<close> the pair of the mean and the standard deviation of its
  fold scores. When no mean is \<open>nan\<close>, the record at \<open>best_index\<close> has a mean at least that
  of every record, and strictly larger than that of every earlier record (ties go to the
  first). When some mean is \<open>nan\<close>, \<open>best_index\<close> is the position of the first such record.
\<close>

theorem best_is_first_maximum:
  assumes "gridsearch_fit split est finish self X y w = (None, self', w')"
  shows "\<exists>results b.
     scoring_results self' = Some results \<and> best_index self' = Some b \<and> b < length results \<and>
     (\<forall>j < length results. snd (snd (results ! j)) = np_mean (fst (snd (results ! j)))) \<and>
     ((\<forall>j < length results. snd (snd (results ! j)) \<noteq> NaN) \<longrightarrow>
        (\<forall>j < length results. np_le (snd (snd (results ! j))) (snd (snd (results ! b)))) \<and>
        (\<forall>j < b. np_less (snd (snd (results ! j))) (snd (snd (results ! b))))) \<and>
     ((\<exists>j < length results. snd (snd (results ! j)) = NaN) \<longrightarrow>
        snd (snd (results ! b)) = NaN \<and> (\<forall>j < b. snd (snd (results ! j)) \<noteq> NaN)) \<and>
     best_params self' = Some (fst (results ! b)) \<and>
     best_score self' = Some (np_mean (fst (snd (results ! b))), np_std (fst (snd (results ! b))))"
proof (cases "split (cv self) (random_state self) True X y w")
  case (Pair r w1)
  show ?thesis
  proof (cases r)
    case (Inl e)
    then show ?thesis using assms(1) Pair fit_split_fails[of split self X y w e w1 est finish] by simp
  next
    case (Inr fs')
    let ?s1 = "self\<lparr>k_fold_splits := Some fs'\<rparr>"
    let ?grid = "ParameterGrid (grid_params self)"
    have sp: "split (cv self) (random_state self) True X y w = (Inr fs', w1)" using Pair Inr by simp
    show ?thesis
    proof (cases "Parallel finish (gridsearch_eval est ?s1 X y) ?grid")
      case (Inl e)
      then show ?thesis using assms(1) fit_eval_fails[where split=split and self=self, OF sp Inl] by simp
    next
      case par: (Inr results)
      note R = Parallel_results[OF par]
      let ?means = "map (\<lambda>result. snd (snd result)) results"
      show ?thesis
      proof (cases "np_argmax ?means")
        case (Inl e)
        then show ?thesis using assms(1) fit_eval_done[where split=split and self=self, OF sp par] by simp
      next
        case am: (Inr b)
        have self': "self' = self\<lparr>k_fold_splits := Some fs', scoring_results := Some results,
                     best_index := Some b, best_params := Some (fst (results ! b)),
                     best_score := Some (np_mean (fst (snd (results ! b))),
                                          np_std (fst (snd (results ! b))))\<rparr>"
          using assms(1) fit_eval_done[where split=split and self=self, OF sp par] am by simp
        have b: "b < length results" using np_argmax_bound[OF am] by simp
        have num: "(\<forall>j < length results. np_le (snd (snd (results ! j))) (snd (snd (results ! b)))) \<and>
                   (\<forall>j < b. np_less (snd (snd (results ! j))) (snd (snd (results ! b))))"
          if nn: "\<forall>j < length results. snd (snd (results ! j)) \<noteq> NaN"
        proof -
          have "\<forall>x \<in> set ?means. x \<noteq> NaN"
          proof
            fix x assume "x \<in> set ?means"
            then obtain j where "j < length ?means" "?means ! j = x" by (metis in_set_conv_nth)
            then show "x \<noteq> NaN" using nn by auto
          qed
          note A = np_argmax_spec[OF am this]
          show ?thesis using A b by simp
        qed
        have nan: "snd (snd (results ! b)) = NaN \<and> (\<forall>j < b. snd (snd (results ! j)) \<noteq> NaN)"
          if ex: "\<exists>j < length results. snd (snd (results ! j)) = NaN"
        proof -
          from ex obtain j where "j < length results" "snd (snd (results ! j)) = NaN" by blast
          then have "?means ! j = NaN" "j < length ?means" by simp_all
          then have "NaN \<in> set ?means" by (metis nth_mem)
          note A = np_argmax_nan[OF am this]
          show ?thesis using A b by simp
        qed
        have rec: "\<forall>j < length results. snd (snd (results ! j)) = np_mean (fst (snd (results ! j)))"
        proof (intro allI impI)
          fix j assume "j < length results"
          then have e: "gridsearch_eval est ?s1 X y (?grid ! j) = Inr (results ! j)" using R(3) by simp
          show "snd (snd (results ! j)) = np_mean (fst (snd (results ! j)))"
            by (rule gridsearch_eval_Inr(2)[OF e])
        qed
        show ?thesis using self' b num nan rec by auto
      qed
    qed
  qed
qed

theorem best_is_first_maximum_witness:
  "fst (gridsearch_fit toy_split toy_est (\<lambda>i. 2 - i) (toy_search [(''bias'', [7, 0, 1])])
             toy_X toy_y 5) = None \<and>
   map_option (map (\<lambda>r. snd (snd r))) (scoring_results (fst (snd (gridsearch_fit toy_split toy_est (\<lambda>i. 2 - i)
             (toy_search [(''bias'', [7, 0, 1])]) toy_X toy_y 5)))) = Some [Fin (1 / 2), Fin 1, Fin 1] \<and>
   best_index (fst (snd (gridsearch_fit toy_split toy_est (\<lambda>i. 2 - i)
             (toy_search [(''bias'', [7, 0, 1])]) toy_X toy_y 5))) = Some 1 \<and>
   best_params (fst (snd (gridsearch_fit toy_split toy_est (\<lambda>i. 2 - i)
             (toy_search [(''bias'', [7, 0, 1])]) toy_X toy_y 5))) = Some [(''bias'', 0)] \<and>
   best_score (fst (snd (gridsearch_fit toy_split toy_est (\<lambda>i. 2 - i)
             (toy_search [(''bias'', [7, 0, 1])]) toy_X toy_y 5))) = Some (Fin 1, Fin 0)"
proof -
  let ?self = "toy_search [(''bias'', [7, 0, 1])]"
  let ?self' = "?self\<lparr>k_fold_splits := Some [([1, 3], [0, 2]), ([0, 2], [1, 3])],
       scoring_results := Some [([(''bias'', 7)], [Fin (1/2), Fin (1/2)], Fin (1/2)),
                                ([(''bias'', 0)], [Fin 1, Fin 1], Fin 1),
                                ([(''bias'', 1)], [Fin 1, Fin 1], Fin 1)],
       best_index := Some 1, best_params := Some [(''bias'', 0)], best_score := Some (Fin 1, Fin 0)\<rparr>"
  have run: "gridsearch_fit toy_split toy_est (\<lambda>i. 2 - i) ?self toy_X toy_y 5 = (None, ?self', 6)"
    by (simp add: run_defs toy_defs)
  from best_is_first_maximum[OF run] obtain results b where
    r: "scoring_results ?self' = Some results" and b: "best_index ?self' = Some b"
    and p: "best_params ?self' = Some (fst (results ! b))"
    and s: "best_score ?self' = Some (np_mean (fst (snd (results ! b))), np_std (fst (snd (results ! b))))"
    by blast
  have res: "results = [([(''bias'', 7)], [Fin (1/2), Fin (1/2)], Fin (1/2)),
                                ([(''bias'', 0)], [Fin 1, Fin 1], Fin 1),
                                ([(''bias'', 1)], [Fin 1, Fin 1], Fin 1)]" using r by simp
  have bv: "b = 1" using b by simp
  have first: "np_less (snd (snd (results ! 0))) (snd (snd (results ! b)))" unfolding res bv by simp
  show ?thesis using first unfolding run res bv by simp
qed

text \<open>
  Claim C3 as the specification words it fails when a mean score is \<open>nan\<close>: \<open>argmax\<close> then
  selects the first \<open>nan\<close>, which is not greater than or equal to anything. With a scoring
  function that is \<open>nan\<close> on constant predictions, the candidates with bias 0, 7 and 1 have
  the means 1, \<open>nan\<close> and 1, and the best index is 1.
\<close>

theorem best_is_first_maximum_nan_counterexample:
  "fst (gridsearch_fit toy_split toy_est (\<lambda>i. i)
          ((toy_search [(''bias'', [0, 7, 1])])\<lparr>scoring := toy_correlation\<rparr>) toy_X toy_y 0) = None \<and>
   map_option (map (\<lambda>r. snd (snd r))) (scoring_results (fst (snd (gridsearch_fit toy_split toy_est (\<lambda>i. i)
          ((toy_search [(''bias'', [0, 7, 1])])\<lparr>scoring := toy_correlation\<rparr>) toy_X toy_y 0))))
     = Some [Fin 1, NaN, Fin 1] \<and>
   best_index (fst (snd (gridsearch_fit toy_split toy_est (\<lambda>i. i)
          ((toy_search [(''bias'', [0, 7, 1])])\<lparr>scoring := toy_correlation\<rparr>) toy_X toy_y 0))) = Some 1 \<and>
   \<not> np_le (Fin 1) NaN"
  by (simp add: run_defs toy_defs toy_correlation_def)




text \<open>
  Claim C7. When the splitter succeeds and the evaluation of some candidate raises (in the
  constructor, in \<open>fit\<close>, in \<open>predict\<close>, in the scoring function or in the indexing), \<open>fit\<close> ends
  with an exception, one raised by the evaluation of a candidate, and the attributes
  \<open>scoring_results\<close>, \<open>best_index\<close>, \<open>best_params\<close> and \<open>best_score\<close> are as they were before the
  call: on a new object none of them exists.
\<close>

theorem evaluation_failure_aborts_search:
  assumes "fst (split (cv self) (random_state self) True X y w) = Inr fs"
    and "p \<in> set (ParameterGrid (grid_params self))"
    and "isl (gridsearch_eval est (self\<lparr>k_fold_splits := Some fs\<rparr>) X y p)"
    and "gridsearch_fit split est finish self X y w = (exc, self', w')"
  shows "(\<exists>e. exc = Some e \<and>
            (\<exists>q \<in> set (ParameterGrid (grid_params self)).
               gridsearch_eval est (self\<lparr>k_fold_splits := Some fs\<rparr>) X y q = Inl e)) \<and>
         scoring_results self' = scoring_results self \<and>
         best_index self' = best_index self \<and>
         best_params self' = best_params self \<and>
         best_score self' = best_score self"
proof -
  obtain w1 where sp: "split (cv self) (random_state self) True X y w = (Inr fs, w1)"
    using assms(1) by (cases "split (cv self) (random_state self) True X y w") auto
  obtain e where par: "Parallel finish (gridsearch_eval est (self\<lparr>k_fold_splits := Some fs\<rparr>) X y)
           (ParameterGrid (grid_params self)) = Inl e"
    using Parallel_fails[where a=p and f="gridsearch_eval est (self\<lparr>k_fold_splits := Some fs\<rparr>) X y",
        OF assms(2,3)] by blast
  from Parallel_Inl[OF par] obtain q where
    "q \<in> set (ParameterGrid (grid_params self))"
    "gridsearch_eval est (self\<lparr>k_fold_splits := Some fs\<rparr>) X y q = Inl e" by blast
  then show ?thesis
    using assms(4) fit_eval_fails[where split=split and self=self, OF sp par] by auto
qed

theorem evaluation_failure_aborts_search_witness:
  "gridsearch_eval toy_est
      ((toy_search [(''bias'', [0, 200])])\<lparr>k_fold_splits := Some [([1, 3], [0, 2]), ([0, 2], [1, 3])]\<rparr>)
      toy_X toy_y [(''bias'', 200)] = Inl (Raised ''bias too large'') \<and>
   fst (gridsearch_fit toy_split toy_est (\<lambda>i. i) (toy_search [(''bias'', [0, 200])]) toy_X toy_y 0)
     = Some (Raised ''bias too large'') \<and>
   scoring_results (fst (snd (gridsearch_fit toy_split toy_est (\<lambda>i. i)
      (toy_search [(''bias'', [0, 200])]) toy_X toy_y 0))) = None \<and>
   best_index (fst (snd (gridsearch_fit toy_split toy_est (\<lambda>i. i)
      (toy_search [(''bias'', [0, 200])]) toy_X toy_y 0))) = None \<and>
   best_params (fst (snd (gridsearch_fit toy_split toy_est (\<lambda>i. i)
      (toy_search [(''bias'', [0, 200])]) toy_X toy_y 0))) = None \<and>
   best_score (fst (snd (gridsearch_fit toy_split toy_est (\<lambda>i. i)
      (toy_search [(''bias'', [0, 200])]) toy_X toy_y 0))) = None"
proof -
  let ?self = "toy_search [(''bias'', [0, 200])]"
  let ?fs = "[([1, 3], [0, 2]), ([0, 2], [1, 3])] :: folds"
  let ?run = "gridsearch_fit toy_split toy_est (\<lambda>i. i) ?self toy_X toy_y 0"
  have sp: "fst (toy_split (cv ?self) (random_state ?self) True toy_X toy_y 0) = Inr ?fs"
    by (simp add: toy_defs)
  have mem: "[(''bias'', 200)] \<in> set (ParameterGrid (grid_params ?self))"
    by (simp add: toy_defs ParameterGrid_def)
  have ev: "gridsearch_eval toy_est (?self\<lparr>k_fold_splits := Some ?fs\<rparr>) toy_X toy_y [(''bias'', 200)]
              = Inl (Raised ''bias too large'')"
    by (simp add: toy_defs gridsearch_eval_def construct_def fit_attempt_def take_rows_def)
  then have bad: "isl (gridsearch_eval toy_est (?self\<lparr>k_fold_splits := Some ?fs\<rparr>) toy_X toy_y [(''bias'', 200)])"
    by simp
  have run: "?run = (fst ?run, fst (snd ?run), snd (snd ?run))" by simp
  have fresh: "scoring_results ?self = None" "best_index ?self = None" "best_params ?self = None"
    "best_score ?self = None" by (simp_all add: toy_defs)
  have val: "fst ?run = Some (Raised ''bias too large'')" by (simp add: run_defs toy_defs)
  note T = evaluation_failure_aborts_search[OF sp mem bad run]
  show ?thesis using T ev val fresh by simp
qed

lemma Cauchy_Schwarz_sum:
  fixes f g :: "'a \<Rightarrow> real"
  assumes "finite I"
  shows "(\<Sum>i\<in>I. f i * g i)\<^sup>2 \<le> (\<Sum>i\<in>I. (f i)\<^sup>2) * (\<Sum>i\<in>I. (g i)\<^sup>2)"
proof -
  let ?A = "\<Sum>i\<in>I. (f i)\<^sup>2" and ?B = "\<Sum>i\<in>I. (g i)\<^sup>2" and ?C = "\<Sum>i\<in>I. f i * g i"
  have quad: "0 \<le> t\<^sup>2 * ?A + 2 * t * ?C + ?B" for t
  proof -
    have "0 \<le> (\<Sum>i\<in>I. (t * f i + g i)\<^sup>2)" by (intro sum_nonneg) simp
    also have "(\<Sum>i\<in>I. (t * f i + g i)\<^sup>2) = (\<Sum>i\<in>I. t\<^sup>2 * (f i)\<^sup>2 + 2 * t * (f i * g i) + (g i)\<^sup>2)"
      by (intro sum.cong refl) (simp add: power2_sum power_mult_distrib algebra_simps)
    also have "\<dots> = t\<^sup>2 * ?A + 2 * t * ?C + ?B"
      by (simp add: sum.distrib sum_distrib_left)
    finally show ?thesis .
  qed
  show ?thesis
  proof (cases "?A = 0")
    case True
    then have "\<forall>i\<in>I. (f i)\<^sup>2 = 0" using assms by (simp add: sum_nonneg_eq_0_iff)
    then have "?C = 0" by simp
    then show ?thesis using True by simp
  next
    case False
    have "0 \<le> ?A" by (intro sum_nonneg) simp
    then have pos: "0 < ?A" using False by simp
    from quad[of "- ?C / ?A"] have "0 \<le> (?C\<^sup>2 / ?A\<^sup>2) * ?A - 2 * (?C / ?A) * ?C + ?B"
      by (simp add: power_divide)
    also have "(?C\<^sup>2 / ?A\<^sup>2) * ?A - 2 * (?C / ?A) * ?C + ?B = ?B - ?C\<^sup>2 / ?A"
      using pos by (simp add: power2_eq_square field_simps)
    finally have "?C\<^sup>2 / ?A \<le> ?B" by simp
    then show ?thesis using pos by (simp add: field_simps)
  qed
qed

lemma class_dot_set:
  "class_dot (remdups cs) a b = (\<Sum>k\<in>set cs. real (count_list a k) * real (count_list b k))"
  unfolding class_dot_def by (simp add: sum_list_distinct_conv_sum_set)

lemma count_list_sum_nth:
  "real (count_list a k) = (\<Sum>s<length a. if a ! s = k then 1 else 0)"
proof (induction a rule: rev_induct)
  case Nil
  then show ?case by simp
next
  case (snoc x a)
  have "(\<Sum>s<length a. if (a @ [x]) ! s = k then 1 else 0 :: real)
        = (\<Sum>s<length a. if a ! s = k then 1 else 0)"
    by (intro sum.cong refl) (simp add: nth_append)
  then show ?case using snoc by simp
qed

lemma length_filter_sum_nth:
  "real (length (filter P xs)) = (\<Sum>s<length xs. if P (xs ! s) then 1 else 0)"
proof (induction xs rule: rev_induct)
  case Nil
  then show ?case by simp
next
  case (snoc x xs)
  have "(\<Sum>s<length xs. if P ((xs @ [x]) ! s) then 1 else 0 :: real)
        = (\<Sum>s<length xs. if P (xs ! s) then 1 else 0)"
    by (intro sum.cong refl) (simp add: nth_append)
  then show ?case using snoc by simp
qed

lemma n_correct_sum_nth:
  assumes "length a = length b"
  shows "real (length (filter (\<lambda>(t, p). t = p) (zip a b))) = (\<Sum>s<length a. if a ! s = b ! s then 1 else 0)"
proof -
  have "real (length (filter (\<lambda>(t, p). t = p) (zip a b)))
      = (\<Sum>s<length (zip a b). if (\<lambda>(t, p). t = p) (zip a b ! s) then 1 else 0)"
    by (rule length_filter_sum_nth)
  also have "\<dots> = (\<Sum>s<length a. if a ! s = b ! s then 1 else 0)"
    using assms by (intro sum.cong) auto
  finally show ?thesis .
qed

text \<open>The centred indicator of class k at sample s, scaled by the number of samples.\<close>

lemma centred_product_sum:
  fixes a b :: "'l list"
  assumes len: "length a = length b" and fin: "finite K" and sub: "set a \<subseteq> K"
  shows "(\<Sum>k\<in>K. \<Sum>s<length a.
            (real (length a) * (if a ! s = k then 1 else 0) - real (count_list a k)) *
            (real (length a) * (if b ! s = k then 1 else 0) - real (count_list b k)))
         = real (length a) *
             (real (length a) * (\<Sum>s<length a. if a ! s = b ! s then 1 else 0)
              - (\<Sum>k\<in>K. real (count_list a k) * real (count_list b k)))"
proof -
  let ?n = "real (length a)"
  let ?ia = "\<lambda>s k. if a ! s = k then 1 else 0 :: real"
  let ?ib = "\<lambda>s k. if b ! s = k then 1 else 0 :: real"
  let ?A = "\<lambda>k. real (count_list a k)" and ?B = "\<lambda>k. real (count_list b k)"
  have cA: "(\<Sum>s<length a. ?ia s k) = ?A k" for k by (simp add: count_list_sum_nth)
  have cB: "(\<Sum>s<length a. ?ib s k) = ?B k" for k using len by (simp add: count_list_sum_nth)
  have inner: "(\<Sum>s<length a. (?n * ?ia s k - ?A k) * (?n * ?ib s k - ?B k))
        = ?n\<^sup>2 * (\<Sum>s<length a. ?ia s k * ?ib s k) - ?n * (?A k * ?B k)" for k
  proof -
    have "(\<Sum>s<length a. (?n * ?ia s k - ?A k) * (?n * ?ib s k - ?B k))
        = (\<Sum>s<length a. ?n\<^sup>2 * (?ia s k * ?ib s k) - ?n * ?B k * ?ia s k - ?n * ?A k * ?ib s k + ?A k * ?B k)"
      by (intro sum.cong refl) (simp add: algebra_simps power2_eq_square)
    also have "\<dots> = ?n\<^sup>2 * (\<Sum>s<length a. ?ia s k * ?ib s k) - ?n * ?B k * (\<Sum>s<length a. ?ia s k)
          - ?n * ?A k * (\<Sum>s<length a. ?ib s k) + ?n * (?A k * ?B k)"
      by (simp only: sum.distrib sum_subtractf sum_distrib_left sum_constant card_lessThan
            of_nat_mult)
    also have "\<dots> = ?n\<^sup>2 * (\<Sum>s<length a. ?ia s k * ?ib s k) - ?n * (?A k * ?B k)"
      by (simp only: cA cB) (simp add: algebra_simps)
    finally show ?thesis .
  qed
  have match: "(\<Sum>k\<in>K. ?ia s k * ?ib s k) = (if a ! s = b ! s then 1 else 0)" if "s < length a" for s
  proof -
    have "a ! s \<in> K" using that sub by auto
    have "(\<Sum>k\<in>K. ?ia s k * ?ib s k) = (\<Sum>k\<in>K. if k = a ! s then ?ib s k else 0)"
      by (intro sum.cong refl) auto
    also have "\<dots> = ?ib s (a ! s)" using fin \<open>a ! s \<in> K\<close> by simp
    finally show ?thesis by auto
  qed
  have "(\<Sum>k\<in>K. \<Sum>s<length a. (?n * ?ia s k - ?A k) * (?n * ?ib s k - ?B k))
      = (\<Sum>k\<in>K. ?n\<^sup>2 * (\<Sum>s<length a. ?ia s k * ?ib s k) - ?n * (?A k * ?B k))"
    by (simp only: inner)
  also have "\<dots> = ?n\<^sup>2 * (\<Sum>k\<in>K. \<Sum>s<length a. ?ia s k * ?ib s k) - ?n * (\<Sum>k\<in>K. ?A k * ?B k)"
    by (simp only: sum_subtractf sum_distrib_left)
  also have "(\<Sum>k\<in>K. \<Sum>s<length a. ?ia s k * ?ib s k) = (\<Sum>s<length a. \<Sum>k\<in>K. ?ia s k * ?ib s k)"
    by (rule sum.swap)
  also have "(\<Sum>s<length a. \<Sum>k\<in>K. ?ia s k * ?ib s k) = (\<Sum>s<length a. if a ! s = b ! s then 1 else 0)"
    by (intro sum.cong refl) (simp add: match)
  finally show ?thesis by (simp add: algebra_simps power2_eq_square)
qed

lemma covariance_bounds:
  fixes a b :: "'l list"
  assumes len: "length a = length b" and fin: "finite K" and sa: "set a \<subseteq> K" and sb: "set b \<subseteq> K"
  defines "n \<equiv> real (length a)"
  defines "dot \<equiv> \<lambda>x y. \<Sum>k\<in>K. real (count_list x k) * real (count_list (y :: 'l list) k)"
  defines "m \<equiv> \<Sum>s<length a. if a ! s = b ! s then 1 else 0 :: real"
  shows "0 \<le> n\<^sup>2 - dot a a" and "0 \<le> n\<^sup>2 - dot b b"
    and "(m * n - dot a b)\<^sup>2 \<le> (n\<^sup>2 - dot a a) * (n\<^sup>2 - dot b b)"
proof -
  let ?f = "\<lambda>(k, s). n * (if a ! s = k then 1 else 0) - real (count_list a k)"
  let ?g = "\<lambda>(k, s). n * (if b ! s = k then 1 else 0) - real (count_list b k)"
  let ?I = "K \<times> {..<length a}"
  have finI: "finite ?I" using fin by simp
  have fg: "(\<Sum>i\<in>?I. ?f i * ?g i) = n * (n * m - dot a b)"
    using centred_product_sum[OF len fin sa]
    by (simp add: sum.cartesian_product n_def m_def dot_def split_def)
  have ff: "(\<Sum>i\<in>?I. (?f i)\<^sup>2) = n * (n\<^sup>2 - dot a a)"
    using centred_product_sum[OF refl fin sa]
    by (simp add: sum.cartesian_product n_def dot_def split_def power2_eq_square)
  have gg: "(\<Sum>i\<in>?I. (?g i)\<^sup>2) = n * (n\<^sup>2 - dot b b)"
    using centred_product_sum[OF refl fin sb] len
    by (simp add: sum.cartesian_product n_def dot_def split_def power2_eq_square)
  have n0: "0 \<le> n" by (simp add: n_def)
  show aa: "0 \<le> n\<^sup>2 - dot a a"
  proof (cases "n = 0")
    case True
    then have "a = []" by (simp add: n_def)
    then show ?thesis by (simp add: dot_def n_def)
  next
    case False
    have "0 \<le> (\<Sum>i\<in>?I. (?f i)\<^sup>2)" by (intro sum_nonneg) simp
    then have "0 \<le> n * (n\<^sup>2 - dot a a)" by (simp only: ff)
    then show ?thesis using False n0 by (simp add: zero_le_mult_iff)
  qed
  show bb: "0 \<le> n\<^sup>2 - dot b b"
  proof (cases "n = 0")
    case True
    then have "b = []" using len by (simp add: n_def)
    then show ?thesis using True by (simp add: dot_def)
  next
    case False
    have "0 \<le> (\<Sum>i\<in>?I. (?g i)\<^sup>2)" by (intro sum_nonneg) simp
    then have "0 \<le> n * (n\<^sup>2 - dot b b)" by (simp only: gg)
    then show ?thesis using False n0 by (simp add: zero_le_mult_iff)
  qed
  show "(m * n - dot a b)\<^sup>2 \<le> (n\<^sup>2 - dot a a) * (n\<^sup>2 - dot b b)"
  proof (cases "n = 0")
    case True
    then have "a = []" "b = []" using len by (simp_all add: n_def)
    then show ?thesis by (simp add: dot_def n_def m_def)
  next
    case False
    then have pos: "0 < n\<^sup>2" by simp
    have "(\<Sum>i\<in>?I. ?f i * ?g i)\<^sup>2 \<le> (\<Sum>i\<in>?I. (?f i)\<^sup>2) * (\<Sum>i\<in>?I. (?g i)\<^sup>2)"
      by (rule Cauchy_Schwarz_sum[OF finI])
    then have "(n * (n * m - dot a b))\<^sup>2 \<le> n * (n\<^sup>2 - dot a a) * (n * (n\<^sup>2 - dot b b))"
      by (simp only: fg ff gg)
    then have "n\<^sup>2 * (m * n - dot a b)\<^sup>2 \<le> n\<^sup>2 * ((n\<^sup>2 - dot a a) * (n\<^sup>2 - dot b b))"
      by (simp add: power_mult_distrib power2_eq_square mult.commute mult.left_commute mult.assoc)
    then show ?thesis using pos by (simp only: mult_le_cancel_left_pos)
  qed
qed

lemma matthews_corrcoef_Inl:
  "matthews_corrcoef y_true y_pred = Inl e \<longleftrightarrow> length y_true \<noteq> length y_pred \<and> e = ValueError"
  by (auto simp: matthews_corrcoef_def Let_def split: if_splits)

lemma matthews_corrcoef_range:
  assumes "matthews_corrcoef y_true y_pred = Inr m"
  shows "- 1 \<le> m \<and> m \<le> 1"
proof -
  have len: "length y_true = length y_pred"
    using assms by (auto simp: matthews_corrcoef_def split: if_splits)
  define K where "K = set (y_true @ y_pred)"
  define n where "n = real (length y_true)"
  define ctp where "ctp = real (length (filter (\<lambda>(t, p). t = p) (zip y_true y_pred))) * n
                            - class_dot (remdups (y_true @ y_pred)) y_true y_pred"
  define ctt where "ctt = n\<^sup>2 - class_dot (remdups (y_true @ y_pred)) y_true y_true"
  define cpp where "cpp = n\<^sup>2 - class_dot (remdups (y_true @ y_pred)) y_pred y_pred"
  have fin: "finite K" and st: "set y_true \<subseteq> K" and sp: "set y_pred \<subseteq> K"
    by (auto simp: K_def)
  note B = covariance_bounds[OF len fin st sp]
  have tt: "0 \<le> ctt" using B(1) by (simp add: ctt_def class_dot_set K_def n_def)
  have pp: "0 \<le> cpp" using B(2) by (simp add: cpp_def class_dot_set K_def n_def)
  have cs: "ctp\<^sup>2 \<le> ctt * cpp"
    using B(3) by (simp add: ctp_def ctt_def cpp_def class_dot_set K_def n_def n_correct_sum_nth[OF len])
  have "matthews_corrcoef y_true y_pred = Inr (if cpp * ctt = 0 then 0 else ctp / sqrt (ctt * cpp))"
    unfolding matthews_corrcoef_def Let_def ctp_def ctt_def cpp_def n_def using len by simp
  then have m: "m = (if cpp * ctt = 0 then 0 else ctp / sqrt (ctt * cpp))"
    using assms by simp
  show ?thesis
  proof (cases "cpp * ctt = 0")
    case True
    then show ?thesis using m by simp
  next
    case False
    then have pos: "0 < ctt * cpp" using tt pp by (simp add: zero_less_mult_iff less_le)
    then have sq: "0 < sqrt (ctt * cpp)" by simp
    have "sqrt (ctp\<^sup>2) \<le> sqrt (ctt * cpp)" using cs by (rule real_sqrt_le_mono)
    then have "\<bar>ctp\<bar> \<le> sqrt (ctt * cpp)" by simp
    then have "- sqrt (ctt * cpp) \<le> ctp" and "ctp \<le> sqrt (ctt * cpp)" by linarith+
    then have "- 1 \<le> ctp / sqrt (ctt * cpp)" and "ctp / sqrt (ctt * cpp) \<le> 1"
      using sq by (simp_all add: pos_le_divide_eq pos_divide_le_eq)
    then show ?thesis using m False by simp
  qed
qed

lemma count_two_le_length: "a \<noteq> b \<Longrightarrow> count_list y a + count_list y b \<le> length y"
  by (induction y) auto

lemma spread_positive:
  assumes a: "a \<in> set y" and b: "b \<in> set y" and ab: "a \<noteq> b"
  shows "0 < (real (length y))\<^sup>2 - (\<Sum>k\<in>set y. real (count_list y k) * real (count_list y k))"
proof -
  let ?n = "real (length y)"
  let ?T = "\<lambda>k. real (count_list y k)"
  have n: "?n = (\<Sum>k\<in>set y. ?T k)"
    using sum_count_set[of y "set y"] by (simp flip: of_nat_sum)
  have "?n\<^sup>2 - (\<Sum>k\<in>set y. ?T k * ?T k) = ?n * (\<Sum>k\<in>set y. ?T k) - (\<Sum>k\<in>set y. ?T k * ?T k)"
    using n by (simp add: power2_eq_square)
  also have "\<dots> = (\<Sum>k\<in>set y. ?T k * (?n - ?T k))"
    by (simp add: sum_distrib_left sum_subtractf algebra_simps)
  finally have eq: "?n\<^sup>2 - (\<Sum>k\<in>set y. ?T k * ?T k) = (\<Sum>k\<in>set y. ?T k * (?n - ?T k))" .
  have nonneg: "0 \<le> ?T k * (?n - ?T k)" for k
    using count_le_length[of y k] by simp
  have "0 < count_list y a" "0 < count_list y b"
    using a b by (simp_all add: count_list_0_iff Suc_le_eq flip: neq0_conv)
  then have "0 < ?T a" and "?T a < ?n"
    using count_two_le_length[OF ab, of y] by simp_all
  then have "0 < ?T a * (?n - ?T a)" by simp
  also have "?T a * (?n - ?T a) \<le> (\<Sum>k\<in>set y. ?T k * (?n - ?T k))"
    using a nonneg by (intro member_le_sum) auto
  finally show ?thesis using eq by simp
qed

lemma matthews_corrcoef_perfect:
  assumes "a \<in> set y" "b \<in> set y" "a \<noteq> b"
  shows "matthews_corrcoef y y = Inr 1"
proof -
  define v where "v = (real (length y))\<^sup>2 - class_dot (remdups (y @ y)) y y"
  have pos: "0 < v"
    using spread_positive[OF assms] by (simp add: v_def class_dot_set)
  have "filter (\<lambda>(t, p). t = p) (zip y y) = zip y y"
    by (auto simp: filter_id_conv dest: in_set_zipE simp: set_zip)
  then have nc: "real (length (filter (\<lambda>(t, p). t = p) (zip y y))) * real (length y) = (real (length y))\<^sup>2"
    by (simp add: power2_eq_square)
  have "matthews_corrcoef y y = (if v * v = 0 then Inr 0 else Inr (v / sqrt (v * v)))"
    by (simp add: matthews_corrcoef_def Let_def nc v_def)
  then show ?thesis using pos by simp
qed

text \<open>
  Claim C8. \<open>scaled_mcc\<close> is \<open>(matthews_corrcoef + 1) / 2\<close>; it returns a score for every pair of
  non-empty label vectors of the same length; every score it returns lies in \<open>[0, 1]\<close>; and for a
  perfect predictor (the predictions are the true labels) with at least two classes present
  the score is exactly 1.
\<close>

theorem scaled_mcc_unit_interval:
  "scaled_mcc y_true y_pred =
     (case matthews_corrcoef y_true y_pred of Inl e \<Rightarrow> Inl e | Inr m \<Rightarrow> Inr ((m + 1) / 2)) \<and>
   (length y_true = length y_pred \<and> y_true \<noteq> [] \<longrightarrow>
      (\<exists>r. scaled_mcc y_true y_pred = Inr r)) \<and>
   (\<forall>r. scaled_mcc y_true y_pred = Inr r \<longrightarrow> 0 \<le> r \<and> r \<le> 1) \<and>
   (y_pred = y_true \<and> (\<exists>a \<in> set y_true. \<exists>b \<in> set y_true. a \<noteq> b) \<longrightarrow>
      scaled_mcc y_true y_pred = Inr 1)"
proof (intro conjI allI impI)
  show "scaled_mcc y_true y_pred =
     (case matthews_corrcoef y_true y_pred of Inl e \<Rightarrow> Inl e | Inr m \<Rightarrow> Inr ((m + 1) / 2))"
    by (simp add: scaled_mcc_def)
next
  assume "length y_true = length y_pred \<and> y_true \<noteq> []"
  then have \<open>length y_true = length y_pred\<close> by simp
  then show "\<exists>r. scaled_mcc y_true y_pred = Inr r"
  proof (cases "matthews_corrcoef y_true y_pred")
    case (Inl e)
    then show ?thesis using \<open>length y_true = length y_pred\<close> by (simp add: matthews_corrcoef_Inl)
  next
    case (Inr m)
    then have "scaled_mcc y_true y_pred = Inr ((m + 1) / 2)" by (simp add: scaled_mcc_def)
    then show ?thesis by (rule exI)
  qed
next
  fix r assume "scaled_mcc y_true y_pred = Inr r"
  then obtain m where m: "matthews_corrcoef y_true y_pred = Inr m" and r: "r = (m + 1) / 2"
    by (auto simp: scaled_mcc_def split: sum.splits)
  from matthews_corrcoef_range[OF m] show "0 \<le> r" and "r \<le> 1" using r by simp_all
next
  assume "y_pred = y_true \<and> (\<exists>a \<in> set y_true. \<exists>b \<in> set y_true. a \<noteq> b)"
  then obtain a b where "y_pred = y_true" "a \<in> set y_true" "b \<in> set y_true" "a \<noteq> b" by blast
  then show "scaled_mcc y_true y_pred = Inr 1"
    using matthews_corrcoef_perfect[of a y_true b] by (simp add: scaled_mcc_def)
qed

theorem scaled_mcc_unit_interval_witness:
  "scaled_mcc [0, 1 :: nat] [1, 0] = Inr 0 \<and>
   scaled_mcc [0, 0, 1, 1 :: nat] [0, 1, 0, 1] = Inr (1 / 2) \<and>
   scaled_mcc [0, 1 :: nat] [0, 1] = Inr 1 \<and>
   scaled_mcc [1, 1 :: nat] [1, 1] = Inr (1 / 2) \<and>
   scaled_mcc [0, 1 :: nat] [0] = Inl ValueError"
proof -
  have worst: "scaled_mcc [0, 1 :: nat] [1, 0] = Inr 0"
    by (simp add: scaled_mcc_def matthews_corrcoef_def class_dot_def)
  have chance: "scaled_mcc [0, 0, 1, 1 :: nat] [0, 1, 0, 1] = Inr (1 / 2)"
    by (simp add: scaled_mcc_def matthews_corrcoef_def class_dot_def)
  have single: "scaled_mcc [1, 1 :: nat] [1, 1] = Inr (1 / 2)"
    by (simp add: scaled_mcc_def matthews_corrcoef_def class_dot_def)
  have bad: "scaled_mcc [0, 1 :: nat] [0] = Inl ValueError"
    by (simp add: scaled_mcc_def matthews_corrcoef_def)
  have two: "\<exists>a \<in> set [0, 1 :: nat]. \<exists>b \<in> set [0, 1 :: nat]. a \<noteq> b" by simp
  note T = scaled_mcc_unit_interval[of "[0, 1 :: nat]" "[0, 1]"]
  have best: "scaled_mcc [0, 1 :: nat] [0, 1] = Inr 1"
    using T two by blast
  show ?thesis using worst chance best single bad by (intro conjI)
qed

lemmas cm_defs = confusion_matrix_def crosstab_def set_columns_def set_index_def frame_round_def
  np_round_def round_half_even_def Let_def

lemma round_half_even_close: "\<bar>of_int (round_half_even x) - x\<bar> \<le> 1 / 2"
proof -
  have "of_int \<lfloor>x\<rfloor> \<le> x" "x < of_int \<lfloor>x\<rfloor> + 1" by linarith+
  then show ?thesis by (auto simp: round_half_even_def Let_def)
qed

lemma round_half_even_of_int [simp]: "round_half_even (of_int k) = k"
  by (simp add: round_half_even_def)

lemma np_round_close: "\<bar>np_round 2 x - x\<bar> \<le> 1 / 200"
proof -
  have "\<bar>of_int (round_half_even (x * 100)) - x * 100\<bar> \<le> 1 / 2"
    by (rule round_half_even_close)
  then have "\<bar>(of_int (round_half_even (x * 100)) - x * 100) / 100\<bar> \<le> (1 / 2) / 100"
    by (simp only: abs_divide) simp
  then show ?thesis by (simp add: np_round_def diff_divide_distrib)
qed

lemma np_round_of_nat [simp]: "np_round 2 (real k) = real k"
proof -
  have "real k * 100 = of_int (int k * 100)" by simp
  then have "round_half_even (real k * 100) = int k * 100" by (simp only: round_half_even_of_int)
  then show ?thesis by (simp add: np_round_def)
qed


lemma confusion_matrix_succeeds:
  assumes "confusion_matrix rnd preds y nz = Inr t"
  shows "length preds = length y" and "preds \<noteq> []"
    and "card (set preds) = 2" and "card (set y) = 2"
  using assms
  by (auto simp: confusion_matrix_def crosstab_def set_columns_def set_index_def Let_def
      length_remdups_card_conv split: sum.splits if_splits)

lemma two_sorted_labels:
  assumes "card (set xs) = 2"
  obtains a b where "sort (remdups xs) = [a, b]" "a \<noteq> b" "set xs = {a, b}"
proof -
  have "length (sort (remdups xs)) = 2" using assms by (simp add: length_remdups_card_conv)
  then have "length (sort (remdups xs)) = Suc (Suc 0)" by (simp only: numeral_2_eq_2)
  then obtain a zs where "sort (remdups xs) = a # zs" "length zs = Suc 0"
    by (metis length_Suc_conv)
  moreover then obtain b where "zs = [b]" by (metis length_0_conv length_Suc_conv)
  ultimately have ab: "sort (remdups xs) = [a, b]" by simp
  have "distinct (sort (remdups xs))" by simp
  then have "a \<noteq> b" using ab by simp
  moreover have "set xs = {a, b}" using ab by (metis set_remdups set_sort list.simps(15) empty_set)
  ultimately show ?thesis using ab that by blast
qed

lemma count_pairs_total:
  assumes "\<forall>(i, c) \<in> set ps. (i = r0 \<or> i = r1) \<and> (c = c0 \<or> c = c1)" and "r0 \<noteq> r1" and "c0 \<noteq> c1"
  shows "length (filter (\<lambda>(i, c'). i = r0 \<and> c' = c0) ps) + length (filter (\<lambda>(i, c'). i = r0 \<and> c' = c1) ps)
       + length (filter (\<lambda>(i, c'). i = r1 \<and> c' = c0) ps) + length (filter (\<lambda>(i, c'). i = r1 \<and> c' = c1) ps)
       = length ps"
  using assms by (induction ps) auto

text \<open>
  The table that is returned, cell by cell: the four counts, their sums, and with
  normalization their fractions of the number of samples, each cell rounded.
\<close>

lemma confusion_matrix_cells:
  assumes "confusion_matrix rnd preds y nz = Inr t"
  obtains n00 n01 n10 n11 :: nat where
    "0 < n00 + n01 + n10 + n11"
    "index t = [Label 0, Label 1, Name ''total'']"
    "columns t = [Label 0, Label 1, Name ''total'']"
    "\<not> nz \<Longrightarrow> cells t =
       [[rnd 2 (real n00), rnd 2 (real n01), rnd 2 (real (n00 + n01))],
        [rnd 2 (real n10), rnd 2 (real n11), rnd 2 (real (n10 + n11))],
        [rnd 2 (real (n00 + n10)), rnd 2 (real (n01 + n11)), rnd 2 (real (n00 + n01 + n10 + n11))]]"
    "nz \<Longrightarrow> cells t =
       [[rnd 2 (real n00 / real (n00 + n01 + n10 + n11)),
         rnd 2 (real n01 / real (n00 + n01 + n10 + n11)),
         rnd 2 (real (n00 + n01) / real (n00 + n01 + n10 + n11))],
        [rnd 2 (real n10 / real (n00 + n01 + n10 + n11)),
         rnd 2 (real n11 / real (n00 + n01 + n10 + n11)),
         rnd 2 (real (n10 + n11) / real (n00 + n01 + n10 + n11))],
        [rnd 2 (real (n00 + n10) / real (n00 + n01 + n10 + n11)),
         rnd 2 (real (n01 + n11) / real (n00 + n01 + n10 + n11)),
         rnd 2 1]]"
proof -
  note ok = confusion_matrix_succeeds[OF assms]
  have ne: "preds \<noteq> []" by (rule ok(2))
  obtain r0 r1 where r: "sort (remdups preds) = [r0, r1]" "r0 \<noteq> r1" "set preds = {r0, r1}"
    using two_sorted_labels[OF ok(3)] by blast
  obtain c0 c1 where c: "sort (remdups y) = [c0, c1]" "c0 \<noteq> c1" "set y = {c0, c1}"
    using two_sorted_labels[OF ok(4)] by blast
  define cnt where "cnt = (\<lambda>r c. length (filter (\<lambda>(i, c'). i = r \<and> c' = c) (zip preds y)))"
  have "\<forall>(i, c) \<in> set (zip preds y). (i = r0 \<or> i = r1) \<and> (c = c0 \<or> c = c1)"
    using r(3) c(3) by (auto dest: set_zip_leftD set_zip_rightD)
  then have tot: "cnt r0 c0 + cnt r0 c1 + cnt r1 c0 + cnt r1 c1 = length y"
    using count_pairs_total[of "zip preds y" r0 r1 c0 c1] r(2) c(2) ok(1) by (simp add: cnt_def)
  have "y \<noteq> []" using ne ok(1) by auto
  then have pos: "0 < cnt r0 c0 + cnt r0 c1 + cnt r1 c0 + cnt r1 c1" using tot by simp
  have t: "t = frame_round rnd 2
      \<lparr>index = [Label 0, Label 1, Name ''total''], columns = [Label 0, Label 1, Name ''total''],
       cells = (let scale = (\<lambda>v. if nz then v / real (length y) else v) in
         [[scale (real (cnt r0 c0)), scale (real (cnt r0 c1)), scale (real (cnt r0 c0) + real (cnt r0 c1))],
          [scale (real (cnt r1 c0)), scale (real (cnt r1 c1)), scale (real (cnt r1 c0) + real (cnt r1 c1))],
          [scale (real (cnt r0 c0) + real (cnt r1 c0)), scale (real (cnt r0 c1) + real (cnt r1 c1)),
           if nz then 1 else real (length y)]])\<rparr>"
  proof -
    have lz: "length (zip preds y) = length y" using ok(1) by simp
    have ct: "crosstab preds y nz = Inr
      \<lparr>index = [Label r0, Label r1, Name ''total''], columns = [Label c0, Label c1, Name ''total''],
       cells = (let scale = (\<lambda>v. if nz then v / real (length y) else v) in
         [[scale (real (cnt r0 c0)), scale (real (cnt r0 c1)), scale (real (cnt r0 c0) + real (cnt r0 c1))],
          [scale (real (cnt r1 c0)), scale (real (cnt r1 c1)), scale (real (cnt r1 c0) + real (cnt r1 c1))],
          [scale (real (cnt r0 c0) + real (cnt r1 c0)), scale (real (cnt r0 c1) + real (cnt r1 c1)),
           if nz then 1 else real (length y)]])\<rparr>"
      unfolding crosstab_def Let_def r(1) c(1) lz cnt_def using ok(1) ne by simp
    show ?thesis using assms unfolding confusion_matrix_def ct
      by (simp add: set_columns_def set_index_def)
  qed
  show ?thesis
  proof (rule that[of "cnt r0 c0" "cnt r0 c1" "cnt r1 c0" "cnt r1 c1"])
    show "0 < cnt r0 c0 + cnt r0 c1 + cnt r1 c0 + cnt r1 c1" by (rule pos)
    show "index t = [Label 0, Label 1, Name ''total'']" by (simp add: t frame_round_def)
    show "columns t = [Label 0, Label 1, Name ''total'']" by (simp add: t frame_round_def)
    show "cells t =
       [[rnd 2 (real (cnt r0 c0)), rnd 2 (real (cnt r0 c1)), rnd 2 (real (cnt r0 c0 + cnt r0 c1))],
        [rnd 2 (real (cnt r1 c0)), rnd 2 (real (cnt r1 c1)), rnd 2 (real (cnt r1 c0 + cnt r1 c1))],
        [rnd 2 (real (cnt r0 c0 + cnt r1 c0)), rnd 2 (real (cnt r0 c1 + cnt r1 c1)),
         rnd 2 (real (cnt r0 c0 + cnt r0 c1 + cnt r1 c0 + cnt r1 c1))]]" if "\<not> nz"
      using that by (simp add: t frame_round_def tot)
    show "cells t =
       [[rnd 2 (real (cnt r0 c0) / real (cnt r0 c0 + cnt r0 c1 + cnt r1 c0 + cnt r1 c1)),
         rnd 2 (real (cnt r0 c1) / real (cnt r0 c0 + cnt r0 c1 + cnt r1 c0 + cnt r1 c1)),
         rnd 2 (real (cnt r0 c0 + cnt r0 c1) / real (cnt r0 c0 + cnt r0 c1 + cnt r1 c0 + cnt r1 c1))],
        [rnd 2 (real (cnt r1 c0) / real (cnt r0 c0 + cnt r0 c1 + cnt r1 c0 + cnt r1 c1)),
         rnd 2 (real (cnt r1 c1) / real (cnt r0 c0 + cnt r0 c1 + cnt r1 c0 + cnt r1 c1)),
         rnd 2 (real (cnt r1 c0 + cnt r1 c1) / real (cnt r0 c0 + cnt r0 c1 + cnt r1 c0 + cnt r1 c1))],
        [rnd 2 (real (cnt r0 c0 + cnt r1 c0) / real (cnt r0 c0 + cnt r0 c1 + cnt r1 c0 + cnt r1 c1)),
         rnd 2 (real (cnt r0 c1 + cnt r1 c1) / real (cnt r0 c0 + cnt r0 c1 + cnt r1 c0 + cnt r1 c1)),
         rnd 2 1]]" if "nz"
      using that by (simp add: t frame_round_def tot)
  qed
qed

lemma below_three: "i < (3 :: nat) \<Longrightarrow> i = 0 \<or> i = 1 \<or> i = 2"
  by linarith

text \<open>
  Claim C9 as the specification words it fails for the margins of a normalized table: the
  table is rounded cell by cell, so a \<open>total\<close> entry is the rounded sum and not the sum of
  the rounded entries. Three samples, one in each of three cells, give the first row
  \<open>0.33, 0.33\<close> with total \<open>0.67\<close>.
\<close>

theorem confusion_matrix_margins_exact_counterexample:
  "confusion_matrix np_round [0, 0, 1 :: nat] [0, 1, 0] True =
     Inr \<lparr>index = [Label 0, Label 1, Name ''total''], columns = [Label 0, Label 1, Name ''total''],
          cells = [[33 / 100, 33 / 100, 67 / 100], [33 / 100, 0, 33 / 100], [67 / 100, 33 / 100, 1]]\<rparr> \<and>
   (67 / 100 :: real) \<noteq> 33 / 100 + 33 / 100"
  by (simp add: cm_defs)

text \<open>
  Claim C9, as the code has it. The table that \<open>confusion_matrix\<close> returns has both axes
  labelled \<open>0, 1, total\<close> and three rows of three cells. The rounding of a cell is the
  library's: it leaves whole numbers as they are, and \<open>tol\<close> bounds its error on a fraction
  between 0 and 1. Without normalization, in every row the \<open>total\<close> entry is the sum of the
  two other entries, and in every column likewise. With normalization this holds within
  the rounding: the \<open>total\<close> entry and the sum of the two other entries differ by at most
  three rounding errors, and the four cells outside the margins sum to 1 within four
  rounding errors.
\<close>

theorem confusion_matrix_margins_up_to_rounding:
  assumes "confusion_matrix rnd preds y nz = Inr t"
    and whole: "\<forall>k :: nat. rnd 2 (real k) = real k"
    and close: "\<forall>x. 0 \<le> x \<and> x \<le> 1 \<longrightarrow> \<bar>rnd 2 x - x\<bar> \<le> tol"
  shows "index t = [Label 0, Label 1, Name ''total''] \<and>
         columns t = [Label 0, Label 1, Name ''total''] \<and>
         length (cells t) = 3 \<and> (\<forall>i < 3. length (cells t ! i) = 3) \<and>
         (\<not> nz \<longrightarrow>
            (\<forall>i < 3. cells t ! i ! 2 = cells t ! i ! 0 + cells t ! i ! 1) \<and>
            (\<forall>j < 3. cells t ! 2 ! j = cells t ! 0 ! j + cells t ! 1 ! j)) \<and>
         (nz \<longrightarrow>
            (\<forall>i < 3. \<bar>cells t ! i ! 2 - (cells t ! i ! 0 + cells t ! i ! 1)\<bar> \<le> 3 * tol) \<and>
            (\<forall>j < 3. \<bar>cells t ! 2 ! j - (cells t ! 0 ! j + cells t ! 1 ! j)\<bar> \<le> 3 * tol) \<and>
            \<bar>cells t ! 0 ! 0 + cells t ! 0 ! 1 + cells t ! 1 ! 0 + cells t ! 1 ! 1 - 1\<bar> \<le> 4 * tol)"
proof -
  from confusion_matrix_cells[OF assms(1)] obtain n00 n01 n10 n11 :: nat where
    pos: "0 < n00 + n01 + n10 + n11"
    and idx: "index t = [Label 0, Label 1, Name ''total'']"
    and col: "columns t = [Label 0, Label 1, Name ''total'']"
    and raw: "\<not> nz \<Longrightarrow> cells t =
       [[rnd 2 (real n00), rnd 2 (real n01), rnd 2 (real (n00 + n01))],
        [rnd 2 (real n10), rnd 2 (real n11), rnd 2 (real (n10 + n11))],
        [rnd 2 (real (n00 + n10)), rnd 2 (real (n01 + n11)), rnd 2 (real (n00 + n01 + n10 + n11))]]"
    and nrm: "nz \<Longrightarrow> cells t =
       [[rnd 2 (real n00 / real (n00 + n01 + n10 + n11)),
         rnd 2 (real n01 / real (n00 + n01 + n10 + n11)),
         rnd 2 (real (n00 + n01) / real (n00 + n01 + n10 + n11))],
        [rnd 2 (real n10 / real (n00 + n01 + n10 + n11)),
         rnd 2 (real n11 / real (n00 + n01 + n10 + n11)),
         rnd 2 (real (n10 + n11) / real (n00 + n01 + n10 + n11))],
        [rnd 2 (real (n00 + n10) / real (n00 + n01 + n10 + n11)),
         rnd 2 (real (n01 + n11) / real (n00 + n01 + n10 + n11)),
         rnd 2 1]]"
    by blast
  define T where "T = real (n00 + n01 + n10 + n11)"
  have Tpos: "0 < T" unfolding T_def using pos by (simp only: of_nat_0_less_iff)
  have one: "rnd 2 1 = 1" using whole[rule_format, of 1] by simp
  have raw': "cells t =
       [[real n00, real n01, real (n00 + n01)],
        [real n10, real n11, real (n10 + n11)],
        [real (n00 + n10), real (n01 + n11), real (n00 + n01 + n10 + n11)]]" if "\<not> nz"
    using raw[OF that] unfolding whole[rule_format] .
  have shape: "length (cells t) = 3 \<and> (\<forall>i < 3. length (cells t ! i) = 3)"
    using raw nrm by (cases nz) (auto dest!: below_three)
  have exact: "\<not> nz \<longrightarrow>
            (\<forall>i < 3. cells t ! i ! 2 = cells t ! i ! 0 + cells t ! i ! 1) \<and>
            (\<forall>j < 3. cells t ! 2 ! j = cells t ! 0 ! j + cells t ! 1 ! j)"
    using raw' by (auto dest!: below_three)
  have approx: "(\<forall>i < 3. \<bar>cells t ! i ! 2 - (cells t ! i ! 0 + cells t ! i ! 1)\<bar> \<le> 3 * tol) \<and>
            (\<forall>j < 3. \<bar>cells t ! 2 ! j - (cells t ! 0 ! j + cells t ! 1 ! j)\<bar> \<le> 3 * tol) \<and>
            \<bar>cells t ! 0 ! 0 + cells t ! 0 ! 1 + cells t ! 1 ! 0 + cells t ! 1 ! 1 - 1\<bar> \<le> 4 * tol"
    if nz
  proof -
    note c = nrm[OF that, folded T_def, unfolded one]
    have frac: "\<bar>rnd 2 (real k / T) - real k / T\<bar> \<le> tol" if "k \<le> n00 + n01 + n10 + n11" for k
    proof -
      have "real k \<le> T" unfolding T_def using that by (simp only: of_nat_le_iff)
      then have "0 \<le> real k / T \<and> real k / T \<le> 1" using Tpos by simp
      then show ?thesis using close by blast
    qed
    have e00: "\<bar>rnd 2 (real n00 / T) - real n00 / T\<bar> \<le> tol" by (rule frac) simp
    have e01: "\<bar>rnd 2 (real n01 / T) - real n01 / T\<bar> \<le> tol" by (rule frac) simp
    have e10: "\<bar>rnd 2 (real n10 / T) - real n10 / T\<bar> \<le> tol" by (rule frac) simp
    have e11: "\<bar>rnd 2 (real n11 / T) - real n11 / T\<bar> \<le> tol" by (rule frac) simp
    have er0: "\<bar>rnd 2 (real (n00 + n01) / T) - real (n00 + n01) / T\<bar> \<le> tol" by (rule frac) simp
    have er1: "\<bar>rnd 2 (real (n10 + n11) / T) - real (n10 + n11) / T\<bar> \<le> tol" by (rule frac) simp
    have ec0: "\<bar>rnd 2 (real (n00 + n10) / T) - real (n00 + n10) / T\<bar> \<le> tol" by (rule frac) simp
    have ec1: "\<bar>rnd 2 (real (n01 + n11) / T) - real (n01 + n11) / T\<bar> \<le> tol" by (rule frac) simp
    have s0: "real (n00 + n01) / T = real n00 / T + real n01 / T"
      and s1: "real (n10 + n11) / T = real n10 / T + real n11 / T"
      and s2: "real (n00 + n10) / T = real n00 / T + real n10 / T"
      and s3: "real (n01 + n11) / T = real n01 / T + real n11 / T"
      by (simp_all add: add_divide_distrib)
    have one_4: "real n00 / T + real n01 / T + real n10 / T + real n11 / T = 1"
      using Tpos by (simp add: T_def flip: add_divide_distrib)
    have tol0: "0 \<le> tol" using e00 by linarith
    have r0: "\<bar>rnd 2 (real (n00 + n01) / T) - (rnd 2 (real n00 / T) + rnd 2 (real n01 / T))\<bar> \<le> 3 * tol"
      using er0 e00 e01 s0 by linarith
    have r1: "\<bar>rnd 2 (real (n10 + n11) / T) - (rnd 2 (real n10 / T) + rnd 2 (real n11 / T))\<bar> \<le> 3 * tol"
      using er1 e10 e11 s1 by linarith
    have c0: "\<bar>rnd 2 (real (n00 + n10) / T) - (rnd 2 (real n00 / T) + rnd 2 (real n10 / T))\<bar> \<le> 3 * tol"
      using ec0 e00 e10 s2 by linarith
    have c1: "\<bar>rnd 2 (real (n01 + n11) / T) - (rnd 2 (real n01 / T) + rnd 2 (real n11 / T))\<bar> \<le> 3 * tol"
      using ec1 e01 e11 s3 by linarith
    have r2: "\<bar>1 - (rnd 2 (real (n00 + n10) / T) + rnd 2 (real (n01 + n11) / T))\<bar> \<le> 3 * tol"
      using ec0 ec1 s2 s3 one_4 tol0 by linarith
    have c2: "\<bar>1 - (rnd 2 (real (n00 + n01) / T) + rnd 2 (real (n10 + n11) / T))\<bar> \<le> 3 * tol"
      using er0 er1 s0 s1 one_4 tol0 by linarith
    have all4: "\<bar>rnd 2 (real n00 / T) + rnd 2 (real n01 / T) + rnd 2 (real n10 / T)
                 + rnd 2 (real n11 / T) - 1\<bar> \<le> 4 * tol"
      using e00 e01 e10 e11 one_4 by linarith
    have rows: "\<forall>i < 3. \<bar>cells t ! i ! 2 - (cells t ! i ! 0 + cells t ! i ! 1)\<bar> \<le> 3 * tol"
      using r0 r1 r2 by (auto dest!: below_three simp: c)
    have cols: "\<forall>j < 3. \<bar>cells t ! 2 ! j - (cells t ! 0 ! j + cells t ! 1 ! j)\<bar> \<le> 3 * tol"
      using c0 c1 c2 by (auto dest!: below_three simp: c)
    have sum4: "\<bar>cells t ! 0 ! 0 + cells t ! 0 ! 1 + cells t ! 1 ! 0 + cells t ! 1 ! 1 - 1\<bar> \<le> 4 * tol"
      using all4 by (simp add: c)
    show ?thesis using rows cols sum4 by blast
  qed
  show ?thesis using idx col shape exact approx by blast
qed

theorem confusion_matrix_margins_up_to_rounding_witness:
  "confusion_matrix np_round [0, 0, 1 :: nat] [0, 1, 0] True =
     Inr \<lparr>index = [Label 0, Label 1, Name ''total''], columns = [Label 0, Label 1, Name ''total''],
          cells = [[33 / 100, 33 / 100, 67 / 100], [33 / 100, 0, 33 / 100], [67 / 100, 33 / 100, 1]]\<rparr> \<and>
   \<bar>67 / 100 - (33 / 100 + 33 / 100)\<bar> \<le> (3 * (1 / 200) :: real) \<and>
   confusion_matrix np_round [0, 0, 1 :: nat] [0, 1, 0] False =
     Inr \<lparr>index = [Label 0, Label 1, Name ''total''], columns = [Label 0, Label 1, Name ''total''],
          cells = [[1, 1, 2], [1, 0, 1], [2, 1, 3]]\<rparr>"
proof -
  let ?t = "\<lparr>index = [Label 0, Label 1, Name ''total''], columns = [Label 0, Label 1, Name ''total''],
          cells = [[33 / 100, 33 / 100, 67 / 100], [33 / 100, 0, 33 / 100], [67 / 100, 33 / 100, 1]]\<rparr>
          :: (int axis_label, int axis_label) frame"
  have v: "confusion_matrix np_round [0, 0, 1 :: nat] [0, 1, 0] True = Inr ?t"
    by (simp add: cm_defs)
  have u: "confusion_matrix np_round [0, 0, 1 :: nat] [0, 1, 0] False =
     Inr \<lparr>index = [Label 0, Label 1, Name ''total''], columns = [Label 0, Label 1, Name ''total''],
          cells = [[1, 1, 2], [1, 0, 1], [2, 1, 3]]\<rparr>"
    by (simp add: cm_defs)
  have whole: "\<forall>k :: nat. np_round 2 (real k) = real k" by simp
  have close: "\<forall>x. 0 \<le> x \<and> x \<le> 1 \<longrightarrow> \<bar>np_round 2 x - x\<bar> \<le> 1 / 200"
    by (intro allI impI np_round_close)
  note T = confusion_matrix_margins_up_to_rounding[OF v whole close]
  have "\<forall>i < 3. \<bar>cells ?t ! i ! 2 - (cells ?t ! i ! 0 + cells ?t ! i ! 1)\<bar> \<le> 3 * (1 / 200)"
    using T by blast
  then have "\<bar>cells ?t ! 0 ! 2 - (cells ?t ! 0 ! 0 + cells ?t ! 0 ! 1)\<bar> \<le> 3 * (1 / 200)" by simp
  then have "\<bar>67 / 100 - (33 / 100 + 33 / 100)\<bar> \<le> (3 * (1 / 200) :: real)" by simp
  then show ?thesis using v u by (intro conjI)
qed




end
